theory Spec2Isabelle
  imports Main "HOL-Library.FSet" "HOL-Library.Multiset"
begin

section \<open>Data model of run2.py\<close>

text \<open>
  \<^verbatim>\<open>Point\<close> is a frozen dataclass of two Python integers, \<open>x\<close> the column and \<open>y\<close> the
  row of a cell (the selectors are \<open>x_of\<close> and \<open>y_of\<close>, leaving \<open>x\<close> and \<open>y\<close> free as
  variables). \<^verbatim>\<open>order=True\<close> compares points as the tuples \<open>(x, y)\<close>.
\<close>

datatype Point = Point (x_of: int) (y_of: int)

instantiation Point :: linorder
begin

definition less_eq_Point :: "Point \<Rightarrow> Point \<Rightarrow> bool" where
  "less_eq_Point p q = (x_of p < x_of q \<or> (x_of p = x_of q \<and> y_of p \<le> y_of q))"

definition less_Point :: "Point \<Rightarrow> Point \<Rightarrow> bool" where
  "less_Point p q = (x_of p < x_of q \<or> (x_of p = x_of q \<and> y_of p < y_of q))"

instance
proof
  fix p q r :: Point
  show "(p < q) = (p \<le> q \<and> \<not> q \<le> p)"
    by (auto simp: less_eq_Point_def less_Point_def)
  show "p \<le> p"
    by (simp add: less_eq_Point_def)
  show "p \<le> q \<Longrightarrow> q \<le> r \<Longrightarrow> p \<le> r"
    by (auto simp: less_eq_Point_def)
  show "p \<le> q \<Longrightarrow> q \<le> p \<Longrightarrow> p = q"
    by (cases p; cases q) (auto simp: less_eq_Point_def)
  show "p \<le> q \<or> q \<le> p"
    by (auto simp: less_eq_Point_def)
qed

end

text \<open>
  \<^verbatim>\<open>Path\<close>: the result of the nearest-key search. The fields \<^verbatim>\<open>length\<close>, \<^verbatim>\<open>start\<close> and
  \<^verbatim>\<open>end\<close> carry a suffix, since \<open>length\<close> and \<open>end\<close> are taken in HOL.
\<close>

record Path =
  length_p :: int
  start_p :: Point
  end_p :: Point

text \<open>
  \<^verbatim>\<open>FieldState\<close>: the frozen signature of a configuration, two frozensets. Its equality is
  the equality of the two sets, whatever the order of insertion.
\<close>

record FieldState =
  robots_fs :: "Point fset"
  keys_fs :: "Point fset"

text \<open>
  A \<^verbatim>\<open>Field\<close> as a value: the contents of its five containers and its two bounds. Python
  sets are finite, hence \<open>fset\<close>; \<^verbatim>\<open>doors_keys\<close> is a dict from door cell to key cell.
  The sharing between a field and its copies is the subject of the store model further
  down; the algorithms only read the contents.
\<close>

record Field =
  robots :: "Point fset"
  keys :: "Point fset"
  doors_keys :: "Point \<rightharpoonup> Point"
  doors :: "Point fset"
  walls :: "Point fset"
  x_max_value :: int
  y_max_value :: int

record State =
  field :: Field
  steps :: int

text \<open>The exceptions the code can raise: a missing dict key or set element, and \<^verbatim>\<open>data[0]\<close>
  on an empty list.\<close>

datatype error = KeyError | IndexError

section \<open>Field: mutation, adjacency, copy, signature\<close>

definition keys_count :: "Field \<Rightarrow> int" where
  "keys_count f = int (fcard (keys f))"

text \<open>
  \<^verbatim>\<open>collect_key\<close>: \<^verbatim>\<open>set.remove\<close> raises KeyError on a missing element. The three
  statements run in order, so the second removal is tried on a robot set that the
  first two statements have already changed.
\<close>

definition collect_key :: "Field \<Rightarrow> Point \<Rightarrow> Point \<Rightarrow> error + Field" where
  "collect_key f robot_position key_position =
     (if robot_position |\<notin>| robots f then Inl KeyError
      else
        let f1 = f\<lparr>robots := robots f |-| {|robot_position|}\<rparr>;
            f2 = f1\<lparr>robots := finsert key_position (robots f1)\<rparr>
        in if key_position |\<notin>| keys f2 then Inl KeyError
           else Inr (f2\<lparr>keys := keys f2 |-| {|key_position|}\<rparr>))"

text \<open>
  \<^verbatim>\<open>get_neighbors\<close> is a generator over \<^verbatim>\<open>directions = [(0, 1), (1, 0), (0, -1), (-1, 0)]\<close>.
  Every caller consumes it to the end, so it is modelled by the list of what it yields;
  the lookup \<^verbatim>\<open>self.doors_keys[neighbor]\<close> raises KeyError on a door without an entry,
  and is reached only when the four tests before it passed and the neighbour is a door
  (\<^verbatim>\<open>and\<close>/\<^verbatim>\<open>or\<close> short-circuit).
\<close>

definition directions :: "(int \<times> int) list" where
  "directions = [(0, 1), (1, 0), (0, -1), (-1, 0)]"

fun neighbors_loop :: "Field \<Rightarrow> Point \<Rightarrow> (int \<times> int) list \<Rightarrow> error + Point list" where
  "neighbors_loop f position [] = Inr []"
| "neighbors_loop f position ((dx, dy) # ds) =
     (let neighbor = Point (x_of position + dx) (y_of position + dy) in
      if 0 < x_of neighbor \<and> x_of neighbor < x_max_value f
         \<and> 0 < y_of neighbor \<and> y_of neighbor < y_max_value f
         \<and> neighbor |\<notin>| robots f
         \<and> neighbor |\<notin>| walls f
      then
        (if neighbor |\<notin>| doors f
         then (case neighbors_loop f position ds of
                 Inl e \<Rightarrow> Inl e
               | Inr ns \<Rightarrow> Inr (neighbor # ns))
         else (case doors_keys f neighbor of
                 None \<Rightarrow> Inl KeyError
               | Some k \<Rightarrow>
                   if k |\<notin>| keys f
                   then (case neighbors_loop f position ds of
                           Inl e \<Rightarrow> Inl e
                         | Inr ns \<Rightarrow> Inr (neighbor # ns))
                   else neighbors_loop f position ds))
      else neighbors_loop f position ds)"

definition get_neighbors :: "Field \<Rightarrow> Point \<Rightarrow> error + Point list" where
  "get_neighbors f position = neighbors_loop f position directions"

text \<open>On values \<^verbatim>\<open>copy\<close> changes nothing: it builds a field with equal contents.\<close>

definition copy :: "Field \<Rightarrow> Field" where
  "copy f = \<lparr>robots = robots f, keys = keys f, doors_keys = doors_keys f,
             doors = doors f, walls = walls f,
             x_max_value = x_max_value f, y_max_value = y_max_value f\<rparr>"

definition dump :: "Field \<Rightarrow> FieldState" where
  "dump f = \<lparr>robots_fs = robots f, keys_fs = keys f\<rparr>"

section \<open>Construction of a Field from the character grid\<close>

text \<open>
  A cell of the grid is one character. \<^verbatim>\<open>ord\<close> and \<^verbatim>\<open>chr\<close> are Python's, on the
  characters below 256 (any other character is in no table of the program and takes the
  KeyError branch of \<^verbatim>\<open>from_string\<close>, as an unlisted character below 256 does).
\<close>

definition ord :: "char \<Rightarrow> int" where
  "ord c = of_char c"

definition chr :: "int \<Rightarrow> char" where
  "chr i = char_of i"

definition KEYS_CHARS :: "char set" where
  "KEYS_CHARS = chr ` {ord CHR ''a'' ..< ord CHR ''z'' + 1}"

text \<open>\<^verbatim>\<open>str.upper\<close> and \<^verbatim>\<open>str.lower\<close> on one character; the program applies them to
  ASCII letters only, and they leave every other character below 128 as it is.\<close>

definition upper :: "char \<Rightarrow> char" where
  "upper c = (if ord CHR ''a'' \<le> ord c \<and> ord c \<le> ord CHR ''z'' then chr (ord c - 32) else c)"

definition lower :: "char \<Rightarrow> char" where
  "lower c = (if ord CHR ''A'' \<le> ord c \<and> ord c \<le> ord CHR ''Z'' then chr (ord c + 32) else c)"

definition DOORS_CHAR :: "char set" where
  "DOORS_CHAR = upper ` KEYS_CHARS"

datatype Element = EMPTY | WALL | DOOR | KEY | ROBOT

text \<open>
  \<^verbatim>\<open>Element.from_string\<close> fills the class-level table \<^verbatim>\<open>Field._values\<close> on its first call
  and then looks the character up; the table never changes afterwards, so the function
  is the lookup. The dict display lists the key letters, then the door letters, then the
  three symbols; no character is listed twice.
\<close>

definition from_string :: "char \<Rightarrow> error + Element" where
  "from_string v =
     (if v = CHR ''@'' then Inr ROBOT
      else if v = CHR ''#'' then Inr WALL
      else if v = CHR ''.'' then Inr EMPTY
      else if v \<in> DOORS_CHAR then Inr DOOR
      else if v \<in> KEYS_CHARS then Inr KEY
      else Inl KeyError)"

text \<open>
  First pass of \<^verbatim>\<open>_initialize_field\<close>: the two nested \<^verbatim>\<open>enumerate\<close> loops, carrying the
  field under construction and the local dict \<^verbatim>\<open>keys\<close> from key letter to the cell that
  holds it (a later cell with the same letter overwrites the earlier one).
\<close>

fun scan_row :: "int \<Rightarrow> int \<Rightarrow> char list \<Rightarrow> Field \<times> (char \<rightharpoonup> Point)
    \<Rightarrow> error + Field \<times> (char \<rightharpoonup> Point)" where
  "scan_row y x [] acc = Inr acc"
| "scan_row y x (element # row) (f, ks) =
     (case from_string element of
        Inl e \<Rightarrow> Inl e
      | Inr new_element \<Rightarrow>
          scan_row y (x + 1) row
            (if new_element = KEY
               then (f\<lparr>keys := finsert (Point x y) (keys f)\<rparr>, ks(element \<mapsto> Point x y))
             else if new_element = DOOR
               then (f\<lparr>doors := finsert (Point x y) (doors f)\<rparr>, ks)
             else if new_element = ROBOT
               then (f\<lparr>robots := finsert (Point x y) (robots f)\<rparr>, ks)
             else if new_element = WALL
               then (f\<lparr>walls := finsert (Point x y) (walls f)\<rparr>, ks)
             else (f, ks)))"

fun scan_rows :: "int \<Rightarrow> char list list \<Rightarrow> Field \<times> (char \<rightharpoonup> Point)
    \<Rightarrow> error + Field \<times> (char \<rightharpoonup> Point)" where
  "scan_rows y [] acc = Inr acc"
| "scan_rows y (row # data) acc =
     (case scan_row y 0 row acc of
        Inl e \<Rightarrow> Inl e
      | Inr acc' \<Rightarrow> scan_rows (y + 1) data acc')"

text \<open>Second pass: every door cell gets the cell of the key with its letter in lower
  case; \<^verbatim>\<open>keys[element.lower()]\<close> raises KeyError when no cell holds that letter.\<close>

fun link_row :: "(char \<rightharpoonup> Point) \<Rightarrow> int \<Rightarrow> int \<Rightarrow> char list \<Rightarrow> Field \<Rightarrow> error + Field" where
  "link_row ks y x [] f = Inr f"
| "link_row ks y x (element # row) f =
     (case from_string element of
        Inl e \<Rightarrow> Inl e
      | Inr new_element \<Rightarrow>
          if new_element = DOOR
          then (case ks (lower element) of
                  None \<Rightarrow> Inl KeyError
                | Some k \<Rightarrow>
                    link_row ks y (x + 1) row (f\<lparr>doors_keys := (doors_keys f)(Point x y \<mapsto> k)\<rparr>))
          else link_row ks y (x + 1) row f)"

fun link_rows :: "(char \<rightharpoonup> Point) \<Rightarrow> int \<Rightarrow> char list list \<Rightarrow> Field \<Rightarrow> error + Field" where
  "link_rows ks y [] f = Inr f"
| "link_rows ks y (row # data) f =
     (case link_row ks y 0 row f of
        Inl e \<Rightarrow> Inl e
      | Inr f' \<Rightarrow> link_rows ks (y + 1) data f')"

definition initialize_field :: "Field \<Rightarrow> char list list \<Rightarrow> error + Field" where
  "initialize_field f data =
     (case scan_rows 0 data (f, Map.empty) of
        Inl e \<Rightarrow> Inl e
      | Inr (f1, ks) \<Rightarrow> link_rows ks 0 data f1)"

text \<open>\<^verbatim>\<open>Field.__init__\<close>: \<^verbatim>\<open>data[0]\<close> raises IndexError on an empty grid; the bounds come
  from the first row and the number of rows, whatever the other rows look like.\<close>

definition Field_init :: "char list list \<Rightarrow> error + Field" where
  "Field_init data =
     (case data of
        [] \<Rightarrow> Inl IndexError
      | row0 # _ \<Rightarrow>
          initialize_field
            \<lparr>robots = {||}, keys = {||}, doors_keys = Map.empty, doors = {||}, walls = {||},
             x_max_value = int (length row0) - 1, y_max_value = int (length data) - 1\<rparr>
            data)"

section \<open>Nearest key: breadth-first search from one robot\<close>

text \<open>
  The body of the \<^verbatim>\<open>for neighbor in ...\<close> loop of \<^verbatim>\<open>get_nearest_key\<close>, over the neighbours
  that the generator yields. \<^verbatim>\<open>distance[current_position]\<close> is read only for a
  neighbour that is not yet in \<^verbatim>\<open>distance\<close>.
\<close>

fun visit_neighbors :: "Point \<Rightarrow> Point list \<Rightarrow> (Point \<rightharpoonup> int) \<Rightarrow> Point list
    \<Rightarrow> error + (Point \<rightharpoonup> int) \<times> Point list" where
  "visit_neighbors current_position [] distance queue = Inr (distance, queue)"
| "visit_neighbors current_position (neighbor # ns) distance queue =
     (if distance neighbor \<noteq> None
      then visit_neighbors current_position ns distance queue
      else (case distance current_position of
              None \<Rightarrow> Inl KeyError
            | Some d \<Rightarrow>
                visit_neighbors current_position ns
                  (distance(neighbor \<mapsto> d + 1)) (queue @ [neighbor])))"

text \<open>The cells strictly inside the border: the only cells \<^verbatim>\<open>get_neighbors\<close> can yield.\<close>

definition interior :: "Field \<Rightarrow> Point set" where
  "interior f = {p. 0 < x_of p \<and> x_of p < x_max_value f \<and> 0 < y_of p \<and> y_of p < y_max_value f}"

lemma finite_interior: "finite (interior f)"
proof -
  have "interior f \<subseteq> (\<lambda>(a, b). Point a b) ` ({0 <..< x_max_value f} \<times> {0 <..< y_max_value f})"
  proof
    fix p assume "p \<in> interior f"
    then have "(x_of p, y_of p) \<in> {0 <..< x_max_value f} \<times> {0 <..< y_max_value f}"
      by (simp add: interior_def)
    then have "(\<lambda>(a, b). Point a b) (x_of p, y_of p)
        \<in> (\<lambda>(a, b). Point a b) ` ({0 <..< x_max_value f} \<times> {0 <..< y_max_value f})"
      by (rule imageI)
    then show "p \<in> (\<lambda>(a, b). Point a b) ` ({0 <..< x_max_value f} \<times> {0 <..< y_max_value f})"
      by simp
  qed
  then show ?thesis
    by (rule finite_subset) simp
qed

lemma neighbors_loop_interior:
  "neighbors_loop f p ds = Inr ns \<Longrightarrow> set ns \<subseteq> interior f"
proof (induction ds arbitrary: ns)
  case Nil
  then show ?case by simp
next
  case (Cons d ds)
  obtain dx dy where d: "d = (dx, dy)" by (cases d)
  from Cons.prems Cons.IH show ?case
    unfolding d
    by (auto simp: Let_def interior_def split: if_splits sum.splits option.splits)
qed

lemma get_neighbors_interior:
  "get_neighbors f p = Inr ns \<Longrightarrow> set ns \<subseteq> interior f"
  unfolding get_neighbors_def by (rule neighbors_loop_interior)

lemma visit_neighbors_measure:
  "visit_neighbors c ns distance queue = Inr (distance', queue') \<Longrightarrow> set ns \<subseteq> I \<Longrightarrow> finite I
   \<Longrightarrow> 2 * card (I - dom distance') + length queue' \<le> 2 * card (I - dom distance) + length queue"
proof (induction ns arbitrary: distance queue)
  case Nil
  then show ?case by simp
next
  case (Cons n ns)
  show ?case
  proof (cases "distance n \<noteq> None")
    case True
    with Cons show ?thesis by simp
  next
    case False
    with Cons.prems obtain d where d: "distance c = Some d"
      and rec: "visit_neighbors c ns (distance(n \<mapsto> d + 1)) (queue @ [n]) = Inr (distance', queue')"
      by (auto split: option.splits)
    from Cons.prems(2) have sub: "set ns \<subseteq> I" by simp
    have le: "2 * card (I - dom (distance(n \<mapsto> d + 1))) + length (queue @ [n])
              \<ge> 2 * card (I - dom distance') + length queue'"
      by (rule Cons.IH [OF rec sub Cons.prems(3)])
    from False Cons.prems have "n \<in> I - dom distance" by auto
    moreover have "I - dom (distance(n \<mapsto> d + 1)) = (I - dom distance) - {n}" by auto
    ultimately have "card (I - dom (distance(n \<mapsto> d + 1))) < card (I - dom distance)"
      using Cons.prems(3) by (simp only: card_Diff1_less finite_Diff)
    with le show ?thesis by simp
  qed
qed

text \<open>
  The \<^verbatim>\<open>while queue\<close> loop. \<^verbatim>\<open>distance[current_position]\<close> of the return statement raises
  KeyError on a cell that is not in the dict.
\<close>

function nearest_loop :: "Field \<Rightarrow> Point \<Rightarrow> (Point \<rightharpoonup> int) \<Rightarrow> Point list \<Rightarrow> error + Path option" where
  "nearest_loop f robot_position distance [] = Inr None"
| "nearest_loop f robot_position distance (current_position # queue) =
     (if current_position |\<in>| keys f
      then (case distance current_position of
              None \<Rightarrow> Inl KeyError
            | Some d \<Rightarrow> Inr (Some \<lparr>length_p = d, start_p = robot_position, end_p = current_position\<rparr>))
      else (case get_neighbors f current_position of
              Inl e \<Rightarrow> Inl e
            | Inr ns \<Rightarrow>
                (case visit_neighbors current_position ns distance queue of
                   Inl e \<Rightarrow> Inl e
                 | Inr (distance', queue') \<Rightarrow> nearest_loop f robot_position distance' queue')))"
  by pat_completeness auto
termination
proof (relation "measure (\<lambda>(f, r, distance, queue). 2 * card (interior f - dom distance) + length queue)")
  show "wf (measure (\<lambda>(f, r, distance, queue). 2 * card (interior f - dom distance) + length queue))"
    by simp
next
  fix f :: Field and robot_position current_position :: Point
    and distance distance' :: "Point \<rightharpoonup> int" and queue queue' ns :: "Point list"
    and xa :: "(Point \<rightharpoonup> int) \<times> Point list"
  assume "get_neighbors f current_position = Inr ns"
    and "visit_neighbors current_position ns distance queue = Inr xa"
    and "(distance', queue') = xa"
  then show "((f, robot_position, distance', queue'), (f, robot_position, distance, current_position # queue))
      \<in> measure (\<lambda>(f, r, distance, queue). 2 * card (interior f - dom distance) + length queue)"
    using visit_neighbors_measure [of current_position ns distance queue distance' queue' "interior f"]
      get_neighbors_interior [of f current_position ns] finite_interior [of f]
    by auto
qed

definition get_nearest_key :: "Field \<Rightarrow> Point \<Rightarrow> error + Path option" where
  "get_nearest_key f robot_position =
     nearest_loop f robot_position [robot_position \<mapsto> 0] [robot_position]"

section \<open>The search over configurations\<close>

text \<open>
  The value of the variable \<^verbatim>\<open>result\<close>: an int, or the float object that line 159 builds
  with \<^verbatim>\<open>float("inf")\<close>. The return statement compares with \<^verbatim>\<open>is not\<close>, which is object
  identity, against the object of a second call \<^verbatim>\<open>float("inf")\<close>. CPython builds a new
  float object at each such call, so a float object carries the number of the call that
  built it, and two floats are the same object when the numbers agree. An int is never
  the same object as a float.
\<close>

datatype pyval = PyInt int | PyInf nat

definition float_inf :: "nat \<Rightarrow> pyval \<times> nat" where
  "float_inf n = (PyInf n, Suc n)"

fun py_is :: "pyval \<Rightarrow> pyval \<Rightarrow> bool" where
  "py_is (PyInf i) (PyInf j) = (i = j)"
| "py_is (PyInt a) (PyInf j) = False"
| "py_is (PyInf i) (PyInt b) = False"
| "py_is (PyInt a) (PyInt b) = (a = b)"

text \<open>\<^verbatim>\<open>min(result, state.steps)\<close>: the second argument when it is smaller, else the
  first; every int is smaller than the float infinity.\<close>

fun py_min :: "pyval \<Rightarrow> int \<Rightarrow> pyval" where
  "py_min (PyInf i) n = PyInt n"
| "py_min (PyInt r) n = (if n < r then PyInt n else PyInt r)"

text \<open>
  The local variables of \<^verbatim>\<open>solve\<close>. The last two fields are history variables that the
  program does not have: \<open>enqueued\<close> lists every node put on \<^verbatim>\<open>states\<close>, in order, and
  \<open>recorded\<close> every dequeued node with no key left. They are only appended to, never read.
\<close>

record solve_vars =
  result :: pyval
  visited :: "FieldState set"
  states :: "State list"
  enqueued :: "State list"
  recorded :: "State list"

text \<open>
  The \<^verbatim>\<open>for robot in state.field.robots\<close> loop, over the robots in the order the set
  iterator gives them. \<^verbatim>\<open>if not path\<close> holds for \<^verbatim>\<open>None\<close> only (a \<^verbatim>\<open>Path\<close> object is true).
\<close>

fun expand :: "State \<Rightarrow> Point list \<Rightarrow> solve_vars \<Rightarrow> error + solve_vars" where
  "expand state [] s = Inr s"
| "expand state (robot # rs) s =
     (case get_nearest_key (field state) robot of
        Inl e \<Rightarrow> Inl e
      | Inr None \<Rightarrow> expand state rs s
      | Inr (Some path) \<Rightarrow>
          (case collect_key (copy (field state)) (start_p path) (end_p path) of
             Inl e \<Rightarrow> Inl e
           | Inr new_field \<Rightarrow>
               if dump new_field \<notin> visited s
               then expand state rs
                      (s\<lparr>visited := insert (dump new_field) (visited s),
                         states := states s @ [\<lparr>field = new_field, steps = steps state + length_p path\<rparr>],
                         enqueued := enqueued s @ [\<lparr>field = new_field, steps = steps state + length_p path\<rparr>]\<rparr>)
               else expand state rs s))"

lemma collect_key_keys:
  "collect_key f r k = Inr f' \<Longrightarrow> k |\<in>| keys f \<and> keys f' = keys f |-| {|k|}"
  by (auto simp: collect_key_def Let_def split: if_splits)

lemma copy_eq: "copy f = f"
  by (simp add: copy_def)

lemma expand_states:
  "expand state rs s = Inr s' \<Longrightarrow>
   \<exists>new. states s' = states s @ new
       \<and> (\<forall>n \<in> set new. fcard (keys (field n)) < fcard (keys (field state)))"
proof (induction rs arbitrary: s)
  case Nil
  then show ?case by simp
next
  case (Cons robot rs)
  show ?case
  proof (cases "get_nearest_key (field state) robot")
    case (Inl e)
    with Cons.prems show ?thesis by simp
  next
    case (Inr po)
    show ?thesis
    proof (cases po)
      case None
      with Inr Cons show ?thesis by simp
    next
      case (Some path)
      show ?thesis
      proof (cases "collect_key (copy (field state)) (start_p path) (end_p path)")
        case (Inl e)
        with Inr Some Cons.prems show ?thesis by simp
      next
        case new: (Inr new_field)
        from collect_key_keys [OF new]
        have less: "fcard (keys new_field) < fcard (keys (field state))"
          using fcard_fminus1_less [of "end_p path" "keys (field state)"]
          by (simp only: copy_eq)
        show ?thesis
        proof (cases "dump new_field \<in> visited s")
          case True
          with Inr Some new Cons show ?thesis by simp
        next
          case False
          let ?n = "\<lparr>field = new_field, steps = steps state + length_p path\<rparr>"
          let ?s1 = "s\<lparr>visited := insert (dump new_field) (visited s),
                       states := states s @ [?n], enqueued := enqueued s @ [?n]\<rparr>"
          from Inr Some new False Cons.prems have "expand state rs ?s1 = Inr s'" by simp
          from Cons.IH [OF this] obtain new' where
            "states s' = states ?s1 @ new'"
            "\<forall>n \<in> set new'. fcard (keys (field n)) < fcard (keys (field state))"
            by blast
          with less have "states s' = states s @ (?n # new')
            \<and> (\<forall>n \<in> set (?n # new'). fcard (keys (field n)) < fcard (keys (field state)))"
            by simp
          then show ?thesis by blast
        qed
      qed
    qed
  qed
qed

text \<open>
  The \<^verbatim>\<open>while states\<close> loop. The order in which \<^verbatim>\<open>for robot in state.field.robots\<close> visits
  the robots is not fixed by the language; in CPython it depends on the history of the
  set object (the copies, removals and additions that built it) and not only on its
  elements, so that two nodes with the same robots can be visited in different orders.
  The loop takes the order as the parameter \<open>iter\<close>, a function of the local variables
  at the \<^verbatim>\<open>for\<close> statement (the queue after \<^verbatim>\<open>popleft\<close> and the two history variables
  among them) and of the node. The queue gets smaller at every round, in the order of
  the termination proof below, so no two rounds of a run have the same local variables
  and every sequence of orders that a run can meet is the value of some \<open>iter\<close>.
\<close>

function solve_loop :: "(solve_vars \<Rightarrow> State \<Rightarrow> Point list) \<Rightarrow> solve_vars \<Rightarrow> error + solve_vars" where
  "solve_loop iter s =
     (case states s of
        [] \<Rightarrow> Inr s
      | state # rest \<Rightarrow>
          if keys_count (field state) = 0
          then solve_loop iter
                 (s\<lparr>result := py_min (result s) (steps state), states := rest,
                    recorded := recorded s @ [state]\<rparr>)
          else (case expand state (iter (s\<lparr>states := rest\<rparr>) state) (s\<lparr>states := rest\<rparr>) of
                  Inl e \<Rightarrow> Inl e
                | Inr s' \<Rightarrow> solve_loop iter s'))"
  by pat_completeness auto
termination
proof (relation "inv_image (mult less_than)
    (\<lambda>(iter, s). mset (map (\<lambda>n. fcard (keys (field n))) (states s)))")
  show "wf (inv_image (mult less_than)
    (\<lambda>(iter, s). mset (map (\<lambda>n. fcard (keys (field n))) (states s))))"
    by (intro wf_inv_image wf_mult wf_less_than)
next
  fix iter :: "solve_vars \<Rightarrow> State \<Rightarrow> Point list" and s :: solve_vars and state :: State and rest :: "State list"
  assume "states s = state # rest"
  let ?kc = "\<lambda>n. fcard (keys (field n))"
  have "(mset (map ?kc rest) + {#}, mset (map ?kc rest) + {#?kc state#}) \<in> mult less_than"
    by (rule one_step_implies_mult) simp_all
  with \<open>states s = state # rest\<close>
  show "((iter, s\<lparr>result := py_min (result s) (steps state), states := rest,
                   recorded := recorded s @ [state]\<rparr>), (iter, s))
        \<in> inv_image (mult less_than) (\<lambda>(iter, s). mset (map ?kc (states s)))"
    by simp
next
  fix iter :: "solve_vars \<Rightarrow> State \<Rightarrow> Point list" and s s' :: solve_vars and state :: State and rest :: "State list"
  assume st: "states s = state # rest"
    and ex: "expand state (iter (s\<lparr>states := rest\<rparr>) state) (s\<lparr>states := rest\<rparr>) = Inr s'"
  let ?kc = "\<lambda>n. fcard (keys (field n))"
  from expand_states [OF ex] obtain new where
    new: "states s' = rest @ new" "\<forall>n \<in> set new. ?kc n < ?kc state"
    by auto
  have "(mset (map ?kc rest) + mset (map ?kc new), mset (map ?kc rest) + {#?kc state#})
        \<in> mult less_than"
    using new(2) by (intro one_step_implies_mult) auto
  with st new(1)
  show "((iter, s'), (iter, s)) \<in> inv_image (mult less_than) (\<lambda>(iter, s). mset (map ?kc (states s)))"
    by simp
qed

text \<open>
  \<^verbatim>\<open>solve\<close> in two parts. \<open>search\<close> is lines 160 to 176: the construction of the field
  and the loop, started on the object \<open>inf0\<close> that line 159 built; it returns the local
  variables at the exit of the loop. \<open>solve\<close> adds line 159, where the first
  \<^verbatim>\<open>float("inf")\<close> is call number 0, and the return statement with the next call.
\<close>

definition search :: "(solve_vars \<Rightarrow> State \<Rightarrow> Point list) \<Rightarrow> pyval \<Rightarrow> char list list \<Rightarrow> error + solve_vars" where
  "search iter inf0 data =
     (case Field_init data of
        Inl e \<Rightarrow> Inl e
      | Inr f \<Rightarrow>
          solve_loop iter
            \<lparr>result = inf0, visited = {},
             states = [\<lparr>field = f, steps = 0\<rparr>],
             enqueued = [\<lparr>field = f, steps = 0\<rparr>], recorded = []\<rparr>)"

definition solve :: "(solve_vars \<Rightarrow> State \<Rightarrow> Point list) \<Rightarrow> char list list \<Rightarrow> error + pyval" where
  "solve iter data =
     (let (inf0, n1) = float_inf 0 in
      case search iter inf0 data of
        Inl e \<Rightarrow> Inl e
      | Inr s \<Rightarrow>
          (let (inf1, n2) = float_inf n1 in
           Inr (if \<not> py_is (result s) inf1 then result s else PyInt 0)))"

text \<open>What every iteration over a set does: each robot of the node once, and nothing
  else.\<close>

definition iterates :: "(solve_vars \<Rightarrow> State \<Rightarrow> Point list) \<Rightarrow> bool" where
  "iterates iter = (\<forall>s n. set (iter s n) = fset (robots (field n)) \<and> distinct (iter s n))"

text \<open>One such order, for evaluation: the robots sorted as points.\<close>

definition sorted_order :: "solve_vars \<Rightarrow> State \<Rightarrow> Point list" where
  "sorted_order s n = sorted_list_of_fset (robots (field n))"

lemma iterates_sorted: "iterates sorted_order"
  by (simp add: iterates_def sorted_order_def sorted_list_of_fset.rep_eq)

section \<open>The character tables\<close>

lemma ord_chr: "0 \<le> i \<Longrightarrow> i < 256 \<Longrightarrow> ord (chr i) = i"
  by (simp add: ord_def chr_def)

lemma chr_ord: "chr (ord c) = c"
  by (simp add: ord_def chr_def)

lemma ord_lits:
  "ord CHR ''a'' = 97" "ord CHR ''z'' = 122" "ord CHR ''A'' = 65" "ord CHR ''Z'' = 90"
  "ord CHR ''@'' = 64" "ord CHR ''#'' = 35" "ord CHR ''.'' = 46"
  by (simp_all add: ord_def)

lemma KEYS_CHARS_iff: "c \<in> KEYS_CHARS \<longleftrightarrow> 97 \<le> ord c \<and> ord c \<le> 122"
proof
  assume "c \<in> KEYS_CHARS"
  then obtain i where "97 \<le> i" "i \<le> 122" "c = chr i"
    by (auto simp: KEYS_CHARS_def ord_lits)
  then show "97 \<le> ord c \<and> ord c \<le> 122"
    by (simp add: ord_chr)
next
  assume "97 \<le> ord c \<and> ord c \<le> 122"
  then have "ord c \<in> {ord CHR ''a'' ..< ord CHR ''z'' + 1}"
    by (simp add: ord_lits)
  then have "chr (ord c) \<in> KEYS_CHARS"
    unfolding KEYS_CHARS_def by (rule imageI)
  then show "c \<in> KEYS_CHARS"
    by (simp add: chr_ord)
qed

lemma upper_key: "c \<in> KEYS_CHARS \<Longrightarrow> upper c = chr (ord c - 32)"
  by (simp add: KEYS_CHARS_iff upper_def ord_lits)

lemma DOORS_CHAR_iff: "c \<in> DOORS_CHAR \<longleftrightarrow> 65 \<le> ord c \<and> ord c \<le> 90"
proof
  assume "c \<in> DOORS_CHAR"
  then obtain k where k: "k \<in> KEYS_CHARS" "c = upper k"
    by (auto simp: DOORS_CHAR_def)
  then have "c = chr (ord k - 32)" "97 \<le> ord k" "ord k \<le> 122"
    by (simp_all add: upper_key KEYS_CHARS_iff)
  then show "65 \<le> ord c \<and> ord c \<le> 90"
    by (simp add: ord_chr)
next
  assume a: "65 \<le> ord c \<and> ord c \<le> 90"
  let ?k = "chr (ord c + 32)"
  from a have ok: "ord ?k = ord c + 32" by (simp add: ord_chr)
  with a have "?k \<in> KEYS_CHARS" by (simp add: KEYS_CHARS_iff)
  then have "upper ?k \<in> DOORS_CHAR"
    unfolding DOORS_CHAR_def by (rule imageI)
  moreover have "upper ?k = c"
    using a ok by (simp add: upper_def chr_ord ord_lits)
  ultimately show "c \<in> DOORS_CHAR" by simp
qed

lemma lower_door: "c \<in> DOORS_CHAR \<Longrightarrow> lower c \<in> KEYS_CHARS \<and> upper (lower c) = c"
  by (simp add: DOORS_CHAR_iff KEYS_CHARS_iff lower_def upper_def ord_chr chr_ord ord_lits)

lemma from_string_cases:
  "from_string c = Inr KEY \<longleftrightarrow> c \<in> KEYS_CHARS"
  "from_string c = Inr DOOR \<longleftrightarrow> c \<in> DOORS_CHAR"
  "from_string c = Inr ROBOT \<longleftrightarrow> c = CHR ''@''"
  "from_string c = Inr WALL \<longleftrightarrow> c = CHR ''#''"
  "from_string c = Inr EMPTY \<longleftrightarrow> c = CHR ''.''"
  by (auto simp: from_string_def DOORS_CHAR_iff KEYS_CHARS_iff ord_lits)

lemma from_string_error: "from_string c = Inl e \<Longrightarrow> e = KeyError"
  by (simp add: from_string_def split: if_splits)


section \<open>collect\_key\<close>

text \<open>
  Claim C5. \<^verbatim>\<open>collect_key(robot, key)\<close> takes the robot's cell out of the robot set, puts
  the key's cell into it and takes the key's cell out of the remaining keys; it raises
  when the robot's cell is no robot position or the key's cell is no remaining key.
\<close>

theorem collect_key_effect:
  "collect_key f r k =
     (if r |\<in>| robots f \<and> k |\<in>| keys f
      then Inr (f\<lparr>robots := finsert k (robots f |-| {|r|}), keys := keys f |-| {|k|}\<rparr>)
      else Inl KeyError)"
  by (simp add: collect_key_def Let_def)

section \<open>get\_neighbors\<close>

text \<open>The invariant of the grid model: every door cell has an entry in \<^verbatim>\<open>doors_keys\<close>.\<close>

definition doors_linked :: "Field \<Rightarrow> bool" where
  "doors_linked f = fBall (doors f) (\<lambda>d. doors_keys f d \<noteq> None)"

text \<open>
  The specification's description of a cell that may be entered: strictly inside the
  border, no wall, no robot on it, and no door whose key is still to be collected.
\<close>

definition admissible :: "Field \<Rightarrow> Point \<Rightarrow> bool" where
  "admissible f n =
     ((0 < x_of n \<and> x_of n < x_max_value f \<and> 0 < y_of n \<and> y_of n < y_max_value f)
      \<and> n |\<notin>| walls f
      \<and> n |\<notin>| robots f
      \<and> \<not> (n |\<in>| doors f \<and> (case doors_keys f n of None \<Rightarrow> False | Some k \<Rightarrow> k |\<in>| keys f)))"

text \<open>The four adjacent cells; \<open>y\<close> is the row index, which grows downwards.\<close>

definition right_of :: "Point \<Rightarrow> Point" where "right_of p = Point (x_of p + 1) (y_of p)"
definition left_of :: "Point \<Rightarrow> Point" where "left_of p = Point (x_of p - 1) (y_of p)"
definition below :: "Point \<Rightarrow> Point" where "below p = Point (x_of p) (y_of p + 1)"
definition above :: "Point \<Rightarrow> Point" where "above p = Point (x_of p) (y_of p - 1)"

text \<open>The field of a grid of five rows \<^verbatim>\<open>.....\<close>: nothing in it, interior 1 to 3.\<close>

definition open_field :: Field where
  "open_field = \<lparr>robots = {||}, keys = {||}, doors_keys = Map.empty, doors = {||}, walls = {||},
                 x_max_value = 4, y_max_value = 4\<rparr>"

lemma neighbors_loop_filter:
  "doors_linked f \<Longrightarrow>
   neighbors_loop f p ds =
     Inr (filter (admissible f) (map (\<lambda>(dx, dy). Point (x_of p + dx) (y_of p + dy)) ds))"
proof (induction ds)
  case Nil
  show ?case by simp
next
  case (Cons d ds)
  obtain dx dy where d: "d = (dx, dy)" by (cases d)
  let ?n = "Point (x_of p + dx) (y_of p + dy)"
  have link: "?n |\<in>| doors f \<Longrightarrow> \<exists>k. doors_keys f ?n = Some k"
    using Cons.prems by (auto simp: doors_linked_def)
  show ?case
    unfolding d using Cons.IH [OF Cons.prems] link
    by (auto simp: Let_def admissible_def)
qed

lemma get_neighbors_linked:
  "doors_linked f \<Longrightarrow>
   get_neighbors f p = Inr (filter (admissible f) [below p, right_of p, above p, left_of p])"
  using neighbors_loop_filter [of f p directions]
  by (simp add: get_neighbors_def directions_def right_of_def below_def left_of_def above_def
      del: neighbors_loop.simps)

lemma open_field_init: "Field_init [''.....'', ''.....'', ''.....'', ''.....'', ''.....''] = Inr open_field"
  by (simp add: Field_init_def initialize_field_def from_string_def open_field_def DOORS_CHAR_iff KEYS_CHARS_iff ord_lits)

text \<open>
  Claim C4, as stated: the admissible ones among the four adjacent cells, in the order
  right, down, left, up. On the open field the generator starts with the cell below.
\<close>

theorem get_neighbors_order_counterexample:
  "get_neighbors open_field (Point 2 2)
     \<noteq> Inr (filter (admissible open_field)
              [right_of (Point 2 2), below (Point 2 2), left_of (Point 2 2), above (Point 2 2)])"
  by (simp add: get_neighbors_def directions_def open_field_def admissible_def
      right_of_def below_def left_of_def above_def)

text \<open>
  Claim C4, amended: on a field where every door has its entry, \<^verbatim>\<open>get_neighbors\<close> yields
  exactly the admissible ones among the four adjacent cells, in the order down, right,
  up, left, which is the order of \<^verbatim>\<open>directions\<close> read as \<open>(dx, dy)\<close>.
\<close>

theorem get_neighbors_yields:
  "doors_linked f \<Longrightarrow>
   get_neighbors f p = Inr (filter (admissible f) [below p, right_of p, above p, left_of p])"
  by (rule get_neighbors_linked)

section \<open>What a construction yields\<close>

text \<open>The cells of a grid with their characters, in the order of the two nested enumerate loops.\<close>

fun row_cells :: "int \<Rightarrow> int \<Rightarrow> char list \<Rightarrow> (Point \<times> char) list" where
  "row_cells y x [] = []"
| "row_cells y x (c # row) = (Point x y, c) # row_cells y (x + 1) row"

fun grid_cells :: "int \<Rightarrow> char list list \<Rightarrow> (Point \<times> char) list" where
  "grid_cells y [] = []"
| "grid_cells y (row # data) = row_cells y 0 row @ grid_cells (y + 1) data"

definition cells_of :: "char set \<Rightarrow> (Point \<times> char) list \<Rightarrow> Point fset" where
  "cells_of C cs = fset_of_list (map fst (filter (\<lambda>(p, c). c \<in> C) cs))"

lemma cells_of_simps:
  "cells_of C [] = {||}"
  "cells_of C ((p, c) # cs) = (if c \<in> C then finsert p (cells_of C cs) else cells_of C cs)"
  "cells_of C (as @ bs) = cells_of C as |\<union>| cells_of C bs"
  by (auto simp: cells_of_def)

lemma snd_row_cells: "snd ` set (row_cells y x row) = set row"
  by (induction row arbitrary: x) auto

lemma snd_grid_cells: "snd ` set (grid_cells y data) = \<Union> (set ` set data)"
  by (induction data arbitrary: y) (auto simp: snd_row_cells image_Un)

text \<open>What the two passes do to the field under construction, when they succeed.\<close>

lemma scan_row_result:
  "scan_row y x row (f, ks) = Inr (f', ks') \<Longrightarrow>
     keys f' = keys f |\<union>| cells_of KEYS_CHARS (row_cells y x row)
   \<and> doors f' = doors f |\<union>| cells_of DOORS_CHAR (row_cells y x row)
   \<and> robots f' = robots f |\<union>| cells_of {CHR ''@''} (row_cells y x row)
   \<and> walls f' = walls f |\<union>| cells_of {CHR ''#''} (row_cells y x row)
   \<and> doors_keys f' = doors_keys f
   \<and> x_max_value f' = x_max_value f \<and> y_max_value f' = y_max_value f
   \<and> dom ks' = dom ks \<union> (set row \<inter> KEYS_CHARS)"
proof (induction row arbitrary: x f ks)
  case Nil
  then show ?case by (simp add: cells_of_simps)
next
  case (Cons c row)
  from Cons.prems obtain el where el: "from_string c = Inr el"
    by (auto split: sum.splits)
  show ?case
  proof (cases el)
    case KEY
    with el Cons.prems have
      "scan_row y (x + 1) row (f\<lparr>keys := finsert (Point x y) (keys f)\<rparr>, ks(c \<mapsto> Point x y)) = Inr (f', ks')"
      by simp
    from Cons.IH [OF this] el KEY show ?thesis
      using from_string_cases [of c] by (auto simp: cells_of_simps split: if_splits)
  next
    case DOOR
    with el Cons.prems have
      "scan_row y (x + 1) row (f\<lparr>doors := finsert (Point x y) (doors f)\<rparr>, ks) = Inr (f', ks')"
      by simp
    from Cons.IH [OF this] el DOOR show ?thesis
      using from_string_cases [of c] by (auto simp: cells_of_simps split: if_splits)
  next
    case ROBOT
    with el Cons.prems have
      "scan_row y (x + 1) row (f\<lparr>robots := finsert (Point x y) (robots f)\<rparr>, ks) = Inr (f', ks')"
      by simp
    from Cons.IH [OF this] el ROBOT show ?thesis
      using from_string_cases [of c] by (auto simp: cells_of_simps split: if_splits)
  next
    case WALL
    with el Cons.prems have
      "scan_row y (x + 1) row (f\<lparr>walls := finsert (Point x y) (walls f)\<rparr>, ks) = Inr (f', ks')"
      by simp
    from Cons.IH [OF this] el WALL show ?thesis
      using from_string_cases [of c] by (auto simp: cells_of_simps split: if_splits)
  next
    case EMPTY
    with el Cons.prems have "scan_row y (x + 1) row (f, ks) = Inr (f', ks')"
      by simp
    from Cons.IH [OF this] el EMPTY show ?thesis
      using from_string_cases [of c] by (auto simp: cells_of_simps split: if_splits)
  qed
qed

lemma scan_rows_result:
  "scan_rows y data (f, ks) = Inr (f', ks') \<Longrightarrow>
     keys f' = keys f |\<union>| cells_of KEYS_CHARS (grid_cells y data)
   \<and> doors f' = doors f |\<union>| cells_of DOORS_CHAR (grid_cells y data)
   \<and> robots f' = robots f |\<union>| cells_of {CHR ''@''} (grid_cells y data)
   \<and> walls f' = walls f |\<union>| cells_of {CHR ''#''} (grid_cells y data)
   \<and> doors_keys f' = doors_keys f
   \<and> x_max_value f' = x_max_value f \<and> y_max_value f' = y_max_value f
   \<and> dom ks' = dom ks \<union> (\<Union> (set ` set data) \<inter> KEYS_CHARS)"
proof (induction data arbitrary: y f ks)
  case Nil
  then show ?case by (simp add: cells_of_simps)
next
  case (Cons row data)
  from Cons.prems obtain f1 ks1 where
    r: "scan_row y 0 row (f, ks) = Inr (f1, ks1)" and
    rs: "scan_rows (y + 1) data (f1, ks1) = Inr (f', ks')"
    by (auto split: sum.splits)
  from scan_row_result [OF r] Cons.IH [OF rs] show ?case
    by (auto simp: cells_of_simps)
qed

lemma link_row_result:
  "link_row ks y x row f = Inr f' \<Longrightarrow>
     dom (doors_keys f') = dom (doors_keys f) \<union> fset (cells_of DOORS_CHAR (row_cells y x row))
   \<and> keys f' = keys f \<and> doors f' = doors f \<and> robots f' = robots f \<and> walls f' = walls f
   \<and> x_max_value f' = x_max_value f \<and> y_max_value f' = y_max_value f
   \<and> (\<forall>c \<in> set row. c \<in> DOORS_CHAR \<longrightarrow> lower c \<in> dom ks)"
proof (induction row arbitrary: x f)
  case Nil
  then show ?case by (simp add: cells_of_simps)
next
  case (Cons c row)
  from Cons.prems obtain el where el: "from_string c = Inr el"
    by (auto split: sum.splits)
  show ?case
  proof (cases "el = DOOR")
    case True
    with el Cons.prems obtain k where k: "ks (lower c) = Some k"
      and rec: "link_row ks y (x + 1) row (f\<lparr>doors_keys := (doors_keys f)(Point x y \<mapsto> k)\<rparr>) = Inr f'"
      by (auto split: option.splits)
    from Cons.IH [OF rec] k el True show ?thesis
      using from_string_cases [of c] by (auto simp: cells_of_simps split: if_splits)
  next
    case False
    with el Cons.prems have rec: "link_row ks y (x + 1) row f = Inr f'"
      by simp
    from Cons.IH [OF rec] el False show ?thesis
      using from_string_cases [of c] by (auto simp: cells_of_simps split: if_splits)
  qed
qed

lemma link_rows_result:
  "link_rows ks y data f = Inr f' \<Longrightarrow>
     dom (doors_keys f') = dom (doors_keys f) \<union> fset (cells_of DOORS_CHAR (grid_cells y data))
   \<and> keys f' = keys f \<and> doors f' = doors f \<and> robots f' = robots f \<and> walls f' = walls f
   \<and> x_max_value f' = x_max_value f \<and> y_max_value f' = y_max_value f
   \<and> (\<forall>row \<in> set data. \<forall>c \<in> set row. c \<in> DOORS_CHAR \<longrightarrow> lower c \<in> dom ks)"
proof (induction data arbitrary: y f)
  case Nil
  then show ?case by (simp add: cells_of_simps)
next
  case (Cons row data)
  from Cons.prems obtain f1 where
    r: "link_row ks y 0 row f = Inr f1" and
    rs: "link_rows ks (y + 1) data f1 = Inr f'"
    by (auto split: sum.splits)
  from link_row_result [OF r] Cons.IH [OF rs] show ?case
    by (auto simp: cells_of_simps)
qed

text \<open>What a successful construction yields, in terms of the cells of the grid.\<close>

lemma Field_init_result:
  assumes "Field_init data = Inr f"
  shows "keys f = cells_of KEYS_CHARS (grid_cells 0 data)"
    and "doors f = cells_of DOORS_CHAR (grid_cells 0 data)"
    and "robots f = cells_of {CHR ''@''} (grid_cells 0 data)"
    and "walls f = cells_of {CHR ''#''} (grid_cells 0 data)"
    and "dom (doors_keys f) = fset (doors f)"
    and "x_max_value f = int (length (hd data)) - 1"
    and "y_max_value f = int (length data) - 1"
    and "data \<noteq> []"
    and "\<forall>row \<in> set data. \<forall>c \<in> set row. c \<in> DOORS_CHAR \<longrightarrow> (\<exists>row' \<in> set data. lower c \<in> set row')"
proof -
  from assms obtain row0 rest where data: "data = row0 # rest"
    by (cases data) (auto simp: Field_init_def)
  let ?f0 = "\<lparr>robots = {||}, keys = {||}, doors_keys = Map.empty, doors = {||}, walls = {||},
             x_max_value = int (length row0) - 1, y_max_value = int (length data) - 1\<rparr>"
  from assms data obtain f1 ks where
    sc: "scan_rows 0 data (?f0, Map.empty) = Inr (f1, ks)" and
    ln: "link_rows ks 0 data f1 = Inr f"
    by (auto simp: Field_init_def initialize_field_def split: sum.splits)
  note a = scan_rows_result [OF sc] and b = link_rows_result [OF ln]
  from a b show "keys f = cells_of KEYS_CHARS (grid_cells 0 data)" by simp
  from a b show "doors f = cells_of DOORS_CHAR (grid_cells 0 data)" by simp
  from a b show "robots f = cells_of {CHR ''@''} (grid_cells 0 data)" by simp
  from a b show "walls f = cells_of {CHR ''#''} (grid_cells 0 data)" by simp
  from a b show "dom (doors_keys f) = fset (doors f)" by simp
  from a b data show "x_max_value f = int (length (hd data)) - 1" by simp
  from a b show "y_max_value f = int (length data) - 1" by simp
  from data show "data \<noteq> []" by simp
  from a b show "\<forall>row \<in> set data. \<forall>c \<in> set row. c \<in> DOORS_CHAR \<longrightarrow> (\<exists>row' \<in> set data. lower c \<in> set row')"
    by auto
qed

lemma Field_init_linked: "Field_init data = Inr f \<Longrightarrow> doors_linked f"
  using Field_init_result(5) [of data f] by (auto simp: doors_linked_def)

section \<open>Unfolding the search loop\<close>

declare solve_loop.simps [simp del]

text \<open>The fixture grid of the specification and the field its construction yields.\<close>

definition fixture :: "char list list" where
  "fixture = [''#########'', ''#b.A.@.a#'', ''#########'']"

definition fixture_field :: Field where
  "fixture_field =
     \<lparr>robots = {|Point 5 1|}, keys = {|Point 7 1, Point 1 1|},
      doors_keys = [Point 3 1 \<mapsto> Point 7 1], doors = {|Point 3 1|},
      walls =
        {|Point 8 2, Point 7 2, Point 6 2, Point 5 2, Point 4 2, Point 3 2, Point 2 2, Point 1 2,
          Point 0 2, Point 8 1, Point 0 1, Point 8 0, Point 7 0, Point 6 0, Point 5 0, Point 4 0,
          Point 3 0, Point 2 0, Point 1 0, Point 0 0|},
      x_max_value = 8, y_max_value = 2\<rparr>"

lemma from_string_lits:
  "from_string CHR ''#'' = Inr WALL" "from_string CHR ''.'' = Inr EMPTY"
  "from_string CHR ''@'' = Inr ROBOT"
  "from_string CHR ''a'' = Inr KEY" "from_string CHR ''b'' = Inr KEY"
  "from_string CHR ''A'' = Inr DOOR"
  by (simp_all add: from_string_cases KEYS_CHARS_iff DOORS_CHAR_iff ord_def)

lemma lower_A: "lower CHR ''A'' = CHR ''a''"
  by (simp add: lower_def ord_def chr_def char_of_def)

lemma fixture_init: "Field_init fixture = Inr fixture_field"
  by (simp add: fixture_def fixture_field_def Field_init_def initialize_field_def
      from_string_lits lower_A)


lemma solve_loop_Nil: "states s = [] \<Longrightarrow> solve_loop iter s = Inr s"
  by (simp add: solve_loop.simps)

lemma solve_loop_terminal:
  "states s = state # rest \<Longrightarrow> keys_count (field state) = 0 \<Longrightarrow>
   solve_loop iter s =
     solve_loop iter (s\<lparr>result := py_min (result s) (steps state), states := rest,
                        recorded := recorded s @ [state]\<rparr>)"
  by (subst solve_loop.simps) simp

lemma solve_loop_expand:
  "states s = state # rest \<Longrightarrow> keys_count (field state) \<noteq> 0 \<Longrightarrow>
   solve_loop iter s =
     (case expand state (iter (s\<lparr>states := rest\<rparr>) state) (s\<lparr>states := rest\<rparr>) of
        Inl e \<Rightarrow> Inl e
      | Inr s' \<Rightarrow> solve_loop iter s')"
  by (subst solve_loop.simps) simp

lemma scan_row_error: "scan_row y x row acc = Inl e \<Longrightarrow> e = KeyError"
proof (induction row arbitrary: x acc)
  case Nil
  then show ?case by simp
next
  case (Cons c row)
  obtain f ks where acc: "acc = (f, ks)" by (cases acc)
  show ?case
  proof (cases "from_string c")
    case (Inl e')
    with Cons.prems acc from_string_error [of c e'] show ?thesis by simp
  next
    case (Inr el)
    with Cons.prems acc show ?thesis
      by (auto dest: Cons.IH)
  qed
qed

lemma scan_rows_error: "scan_rows y data acc = Inl e \<Longrightarrow> e = KeyError"
proof (induction data arbitrary: y acc)
  case Nil
  then show ?case by simp
next
  case (Cons row data)
  then show ?case
    by (auto split: sum.splits dest: scan_row_error)
qed

lemma link_row_error: "link_row ks y x row f = Inl e \<Longrightarrow> e = KeyError"
proof (induction row arbitrary: x f)
  case Nil
  then show ?case by simp
next
  case (Cons c row)
  show ?case
  proof (cases "from_string c")
    case (Inl e')
    with Cons.prems from_string_error [of c e'] show ?thesis by simp
  next
    case (Inr el)
    with Cons.prems show ?thesis
      by (auto split: if_splits option.splits dest: Cons.IH)
  qed
qed

lemma link_rows_error: "link_rows ks y data f = Inl e \<Longrightarrow> e = KeyError"
proof (induction data arbitrary: y f)
  case Nil
  then show ?case by simp
next
  case (Cons row data)
  then show ?case
    by (auto split: sum.splits dest: link_row_error)
qed

lemma initialize_field_error: "initialize_field f data = Inl e \<Longrightarrow> e = KeyError"
  by (auto simp: initialize_field_def split: sum.splits dest: scan_rows_error link_rows_error)

lemma Field_init_error: "Field_init data = Inl e \<Longrightarrow> data \<noteq> [] \<Longrightarrow> e = KeyError"
  by (cases data) (auto simp: Field_init_def dest: initialize_field_error)

text \<open>The three malformations that the specification lists.\<close>

definition ragged :: "char list list \<Rightarrow> bool" where
  "ragged data = (\<exists>row \<in> set data. length row \<noteq> length (hd data))"

definition orphan_door :: "char list list \<Rightarrow> bool" where
  "orphan_door data =
     (\<exists>row \<in> set data. \<exists>c \<in> set row. c \<in> DOORS_CHAR \<and> (\<forall>row' \<in> set data. lower c \<notin> set row'))"

definition no_robot :: "char list list \<Rightarrow> bool" where
  "no_robot data = (\<forall>row \<in> set data. CHR ''@'' \<notin> set row)"

lemma orphan_door_KeyError: "orphan_door data \<Longrightarrow> Field_init data = Inl KeyError"
proof (cases "Field_init data")
  case (Inl e)
  assume "orphan_door data"
  then have "data \<noteq> []" by (auto simp: orphan_door_def)
  with Inl Field_init_error [of data e] show ?thesis by simp
next
  case (Inr f)
  assume "orphan_door data"
  with Field_init_result(9) [OF Inr] show ?thesis
    by (auto simp: orphan_door_def)
qed

lemma solve_terminal_start:
  assumes "Field_init data = Inr f" and "keys f = {||}"
  shows "solve iter data = Inr (PyInt 0)"
proof -
  let ?n = "\<lparr>field = f, steps = 0\<rparr>"
  let ?s0 = "\<lparr>result = PyInf 0, visited = {}, states = [?n], enqueued = [?n], recorded = []\<rparr>"
  have kc: "keys_count (field ?n) = 0"
    using assms(2) by (simp add: keys_count_def)
  have "solve_loop iter ?s0 =
        solve_loop iter (?s0\<lparr>result := py_min (result ?s0) (steps ?n), states := [],
                              recorded := recorded ?s0 @ [?n]\<rparr>)"
    by (rule solve_loop_terminal [OF _ kc]) simp
  also have "\<dots> = Inr (?s0\<lparr>result := py_min (result ?s0) (steps ?n), states := [],
                              recorded := recorded ?s0 @ [?n]\<rparr>)"
    by (rule solve_loop_Nil) simp
  finally have "search iter (PyInf 0) data = Inr \<lparr>result = PyInt 0, visited = {}, states = [],
      enqueued = [?n], recorded = [?n]\<rparr>"
    using assms(1) by (simp add: search_def)
  then show ?thesis
    by (simp add: solve_def float_inf_def)
qed

section \<open>Doors of a constructed field\<close>

text \<open>
  Claim C10. In a field that the constructor built, every door cell has its entry in
  \<^verbatim>\<open>doors_keys\<close>; so \<^verbatim>\<open>get_neighbors\<close> raises nothing on it, on any configuration with the
  same doors and the same dict (what \<^verbatim>\<open>copy\<close> and \<^verbatim>\<open>collect_key\<close> leave alone), or on
  its copy.
\<close>

theorem constructed_doors_have_entries:
  "Field_init data = Inr f \<Longrightarrow>
     (\<forall>d. d |\<in>| doors f \<longrightarrow> (\<exists>k. doors_keys f d = Some k))
   \<and> (\<forall>f' p. doors f' = doors f \<and> doors_keys f' = doors_keys f
          \<longrightarrow> (\<exists>ns. get_neighbors f' p = Inr ns))
   \<and> (\<forall>p. \<exists>ns. get_neighbors (copy f) p = Inr ns)"
proof (intro conjI allI impI)
  assume init: "Field_init data = Inr f"
  then have linked: "doors_linked f" by (rule Field_init_linked)
  show "\<exists>k. doors_keys f d = Some k" if "d |\<in>| doors f" for d
    using linked that by (auto simp: doors_linked_def)
  show "\<exists>ns. get_neighbors f' p = Inr ns"
    if "doors f' = doors f \<and> doors_keys f' = doors_keys f" for f' p
  proof -
    from linked that have "doors_linked f'" by (simp add: doors_linked_def)
    then show ?thesis by (simp add: get_neighbors_linked)
  qed
  show "\<exists>ns. get_neighbors (copy f) p = Inr ns" for p
    using linked by (simp add: copy_eq get_neighbors_linked)
qed

theorem constructed_doors_have_entries_witness:
  "Field_init fixture = Inr fixture_field
   \<and> doors_keys fixture_field (Point 3 1) = Some (Point 7 1)
   \<and> (\<exists>ns. get_neighbors (fixture_field\<lparr>robots := {|Point 7 1|}, keys := {|Point 1 1|}\<rparr>) (Point 4 1) = Inr ns)
   \<and> (\<exists>ns. get_neighbors (copy fixture_field) (Point 4 1) = Inr ns)"
  using constructed_doors_have_entries [OF fixture_init] fixture_init
  by (simp add: fixture_field_def)

section \<open>Malformed grids\<close>

text \<open>A grid with a short middle row, a room without a robot, and a door \<^verbatim>\<open>A\<close> without key \<^verbatim>\<open>a\<close>.\<close>

definition ragged_grid :: "char list list" where
  "ragged_grid = [''####'', ''#@#'', ''####'']"

definition empty_room :: "char list list" where
  "empty_room = [''###'', ''#.#'', ''###'']"

definition orphan_grid :: "char list list" where
  "orphan_grid = [''####'', ''#@A#'', ''####'']"

lemma ragged_grid_init:
  "Field_init ragged_grid =
     Inr \<lparr>robots = {|Point 1 1|}, keys = {||}, doors_keys = Map.empty, doors = {||},
          walls = {|Point 3 2, Point 2 2, Point 1 2, Point 0 2, Point 2 1, Point 0 1,
                    Point 3 0, Point 2 0, Point 1 0, Point 0 0|},
          x_max_value = 3, y_max_value = 2\<rparr>"
  by (simp add: ragged_grid_def Field_init_def initialize_field_def from_string_lits)

lemma empty_room_init:
  "Field_init empty_room =
     Inr \<lparr>robots = {||}, keys = {||}, doors_keys = Map.empty, doors = {||},
          walls = {|Point 2 2, Point 1 2, Point 0 2, Point 2 1, Point 0 1,
                    Point 2 0, Point 1 0, Point 0 0|},
          x_max_value = 2, y_max_value = 2\<rparr>"
  by (simp add: empty_room_def Field_init_def initialize_field_def from_string_lits)

text \<open>
  Claim C7, as stated: a grid with rows of unequal length, with an orphan door or with no
  robot is rejected with an error before the search. The ragged grid and the room
  without a robot are searched and answered with 0.
\<close>

theorem malformed_not_rejected_counterexample:
  "ragged ragged_grid \<and> solve sorted_order ragged_grid = Inr (PyInt 0)
   \<and> no_robot empty_room \<and> solve sorted_order empty_room = Inr (PyInt 0)"
proof -
  have "ragged ragged_grid"
    by (simp add: ragged_def ragged_grid_def)
  moreover have "no_robot empty_room"
    by (simp add: no_robot_def empty_room_def)
  moreover have "solve sorted_order ragged_grid = Inr (PyInt 0)"
    by (rule solve_terminal_start [OF ragged_grid_init]) simp
  moreover have "solve sorted_order empty_room = Inr (PyInt 0)"
    by (rule solve_terminal_start [OF empty_room_init]) simp
  ultimately show ?thesis by simp
qed

text \<open>
  Claim C7, amended: a grid with a door whose lower-case letter is in no cell makes the
  constructor raise KeyError, so \<^verbatim>\<open>solve\<close> fails before its loop starts. (Rows of unequal
  length and a missing robot are not checked.)
\<close>

theorem orphan_door_rejected:
  "orphan_door data \<Longrightarrow> Field_init data = Inl KeyError \<and> solve iter data = Inl KeyError"
  by (simp add: orphan_door_KeyError solve_def search_def float_inf_def)

theorem orphan_door_rejected_witness:
  "orphan_door orphan_grid \<and> Field_init orphan_grid = Inl KeyError
   \<and> solve sorted_order orphan_grid = Inl KeyError"
proof -
  have "CHR ''A'' \<in> DOORS_CHAR"
    by (simp add: DOORS_CHAR_iff ord_def)
  then have o: "orphan_door orphan_grid"
    by (simp add: orphan_door_def orphan_grid_def lower_A)
  with orphan_door_rejected [OF o, of sorted_order] show ?thesis by simp
qed

section \<open>Grids without keys\<close>

lemma cells_of_none:
  "\<forall>row \<in> set data. \<forall>c \<in> set row. c \<notin> C \<Longrightarrow> cells_of C (grid_cells y data) = {||}"
proof -
  assume none: "\<forall>row \<in> set data. \<forall>c \<in> set row. c \<notin> C"
  have "snd pc \<notin> C" if "pc \<in> set (grid_cells y data)" for pc
  proof -
    from that have "snd pc \<in> snd ` set (grid_cells y data)" by (rule imageI)
    then have "snd pc \<in> \<Union> (set ` set data)" by (simp only: snd_grid_cells)
    then obtain row where "row \<in> set data" "snd pc \<in> set row" by blast
    with none show ?thesis by blast
  qed
  then have "filter (\<lambda>(p, c). c \<in> C) (grid_cells y data) = []"
    by (simp add: filter_empty_conv split_beta)
  then show ?thesis by (simp add: cells_of_def)
qed

text \<open>
  Claim C8. On a grid that the constructor accepts and that has no key cell, \<^verbatim>\<open>solve\<close>
  returns the int 0, whatever the iteration order of sets.
\<close>

theorem solve_no_keys:
  "Field_init data = Inr f \<Longrightarrow> \<forall>row \<in> set data. \<forall>c \<in> set row. c \<notin> KEYS_CHARS \<Longrightarrow>
   solve iter data = Inr (PyInt 0)"
proof -
  assume init: "Field_init data = Inr f" and none: "\<forall>row \<in> set data. \<forall>c \<in> set row. c \<notin> KEYS_CHARS"
  have "keys f = {||}"
    using Field_init_result(1) [OF init] cells_of_none [OF none] by simp
  with init show ?thesis by (rule solve_terminal_start)
qed

definition lone_robot :: "char list list" where
  "lone_robot = [''###'', ''#@#'', ''###'']"

lemma lone_robot_init:
  "Field_init lone_robot =
     Inr \<lparr>robots = {|Point 1 1|}, keys = {||}, doors_keys = Map.empty, doors = {||},
          walls = {|Point 2 2, Point 1 2, Point 0 2, Point 2 1, Point 0 1,
                    Point 2 0, Point 1 0, Point 0 0|},
          x_max_value = 2, y_max_value = 2\<rparr>"
  by (simp add: lone_robot_def Field_init_def initialize_field_def from_string_lits)

theorem solve_no_keys_witness:
  "(\<exists>f. Field_init lone_robot = Inr f)
   \<and> set (concat lone_robot) \<inter> KEYS_CHARS = {}
   \<and> solve sorted_order lone_robot = Inr (PyInt 0)"
proof -
  have none: "\<forall>row \<in> set lone_robot. \<forall>c \<in> set row. c \<notin> KEYS_CHARS"
    by (simp add: lone_robot_def KEYS_CHARS_iff ord_def)
  then have "set (concat lone_robot) \<inter> KEYS_CHARS = {}"
    by auto
  with solve_no_keys [OF lone_robot_init none, of sorted_order] lone_robot_init
  show ?thesis by blast
qed

section \<open>The fixture of the specification\<close>

lemma keys_count_0: "keys_count f = 0 \<longleftrightarrow> keys f = {||}"
  by (simp add: keys_count_def)

lemma iterates_single: "iterates iter \<Longrightarrow> robots (field n) = {|p|} \<Longrightarrow> iter s n = [p]"
proof -
  assume "iterates iter" and "robots (field n) = {|p|}"
  then have s: "set (iter s n) = {p}" and d: "distinct (iter s n)"
    by (simp_all add: iterates_def)
  show ?thesis
  proof (cases "iter s n")
    case Nil
    with s show ?thesis by simp
  next
    case (Cons a as)
    with s d have "a = p" "set as \<subseteq> {p}" "p \<notin> set as" by auto
    then have "as = []" by (cases as) auto
    with Cons \<open>a = p\<close> show ?thesis by simp
  qed
qed

text \<open>The fixture after key \<^verbatim>\<open>a\<close> is collected, and after key \<^verbatim>\<open>b\<close> as well.\<close>

definition fixture_field_a :: Field where
  "fixture_field_a = fixture_field\<lparr>robots := {|Point 7 1|}, keys := {|Point 1 1|}\<rparr>"

definition fixture_field_ab :: Field where
  "fixture_field_ab = fixture_field\<lparr>robots := {|Point 1 1|}, keys := {||}\<rparr>"

text \<open>The amended order of \<^verbatim>\<open>get_neighbors\<close> on the open field, and next to the door of
  the fixture, open and locked.\<close>

theorem get_neighbors_yields_witness:
  "doors_linked open_field \<and>
   get_neighbors open_field (Point 2 2) = Inr [Point 2 3, Point 3 2, Point 2 1, Point 1 2]
   \<and> doors_linked fixture_field_a
   \<and> get_neighbors fixture_field_a (Point 4 1) = Inr [Point 5 1, Point 3 1]
   \<and> doors_linked fixture_field
   \<and> get_neighbors fixture_field (Point 4 1) = Inr []"
  using get_neighbors_yields [of open_field "Point 2 2"]
    get_neighbors_yields [of fixture_field_a "Point 4 1"]
    get_neighbors_yields [of fixture_field "Point 4 1"]
  by (simp add: doors_linked_def open_field_def fixture_field_a_def fixture_field_def admissible_def
      right_of_def below_def left_of_def above_def)

lemma fixture_nearest_a:
  "get_nearest_key fixture_field (Point 5 1)
     = Inr (Some \<lparr>length_p = 2, start_p = Point 5 1, end_p = Point 7 1\<rparr>)"
  by (simp add: get_nearest_key_def get_neighbors_def directions_def fixture_field_def)

lemma fixture_nearest_b:
  "get_nearest_key fixture_field_a (Point 7 1)
     = Inr (Some \<lparr>length_p = 6, start_p = Point 7 1, end_p = Point 1 1\<rparr>)"
  by (simp add: get_nearest_key_def get_neighbors_def directions_def fixture_field_def fixture_field_a_def)


lemma fixture_collect_a:
  "collect_key (copy fixture_field) (Point 5 1) (Point 7 1) = Inr fixture_field_a"
  by (simp add: collect_key_def copy_def fixture_field_def fixture_field_a_def)

lemma fixture_collect_b:
  "collect_key (copy fixture_field_a) (Point 7 1) (Point 1 1) = Inr fixture_field_ab"
  by (simp add: collect_key_def copy_def fixture_field_def fixture_field_a_def fixture_field_ab_def)

lemma fixture_search:
  assumes "iterates iter"
  shows "search iter inf0 fixture =
     Inr \<lparr>result = py_min inf0 8,
          visited = {dump fixture_field_ab, dump fixture_field_a},
          states = [],
          enqueued = [\<lparr>field = fixture_field, steps = 0\<rparr>, \<lparr>field = fixture_field_a, steps = 2\<rparr>,
                      \<lparr>field = fixture_field_ab, steps = 8\<rparr>],
          recorded = [\<lparr>field = fixture_field_ab, steps = 8\<rparr>]\<rparr>"
proof -
  let ?n0 = "\<lparr>field = fixture_field, steps = 0\<rparr>"
  let ?n1 = "\<lparr>field = fixture_field_a, steps = 2\<rparr>"
  let ?n2 = "\<lparr>field = fixture_field_ab, steps = 8\<rparr>"
  let ?s0 = "\<lparr>result = inf0, visited = {}, states = [?n0], enqueued = [?n0], recorded = []\<rparr>"
  let ?s1 = "\<lparr>result = inf0, visited = {dump fixture_field_a}, states = [?n1],
              enqueued = [?n0, ?n1], recorded = []\<rparr>"
  let ?s2 = "\<lparr>result = inf0, visited = {dump fixture_field_ab, dump fixture_field_a}, states = [?n2],
              enqueued = [?n0, ?n1, ?n2], recorded = []\<rparr>"
  let ?s3 = "\<lparr>result = py_min inf0 8, visited = {dump fixture_field_ab, dump fixture_field_a},
              states = [], enqueued = [?n0, ?n1, ?n2], recorded = [?n2]\<rparr>"
  have k0: "keys_count (field ?n0) \<noteq> 0"
    by (simp add: keys_count_0 fixture_field_def)
  have k1: "keys_count (field ?n1) \<noteq> 0"
    by (simp add: keys_count_0 fixture_field_a_def)
  have k2: "keys_count (field ?n2) = 0"
    by (simp add: keys_count_0 fixture_field_ab_def)
  have r0: "iter (?s0\<lparr>states := []\<rparr>) ?n0 = [Point 5 1]"
    by (rule iterates_single [OF assms]) (simp add: fixture_field_def)
  have r1: "iter (?s1\<lparr>states := []\<rparr>) ?n1 = [Point 7 1]"
    by (rule iterates_single [OF assms]) (simp add: fixture_field_a_def)
  have e0: "expand ?n0 [Point 5 1] (?s0\<lparr>states := []\<rparr>) = Inr ?s1"
    by (simp add: fixture_nearest_a fixture_collect_a)
  have neq: "dump fixture_field_ab \<noteq> dump fixture_field_a"
    by (simp add: dump_def fixture_field_a_def fixture_field_ab_def)
  have e1: "expand ?n1 [Point 7 1] (?s1\<lparr>states := []\<rparr>) = Inr ?s2"
    using neq by (simp add: fixture_nearest_b fixture_collect_b)
  have "solve_loop iter ?s0 = solve_loop iter ?s1"
    using solve_loop_expand [of ?s0 ?n0 "[]" iter, OF _ k0] r0 e0 by simp
  also have "\<dots> = solve_loop iter ?s2"
    using solve_loop_expand [of ?s1 ?n1 "[]" iter, OF _ k1] r1 e1 by simp
  also have "\<dots> = solve_loop iter ?s3"
    using solve_loop_terminal [of ?s2 ?n2 "[]" iter, OF _ k2] by simp
  also have "\<dots> = Inr ?s3"
    by (rule solve_loop_Nil) simp
  finally show ?thesis
    by (simp add: search_def fixture_init)
qed

text \<open>
  Claim C9. On the fixture grid \<^verbatim>\<open>solve\<close> returns the int 8, in whatever order sets are
  iterated: 2 steps to key \<^verbatim>\<open>a\<close>, then 6 through the opened door to key \<^verbatim>\<open>b\<close>.
\<close>

theorem solve_fixture:
  "iterates iter \<Longrightarrow> solve iter fixture = Inr (PyInt 8)"
  by (simp add: solve_def float_inf_def fixture_search)

theorem solve_fixture_witness:
  "iterates sorted_order \<and> solve sorted_order fixture = Inr (PyInt 8)"
  using solve_fixture [OF iterates_sorted] iterates_sorted by simp

section \<open>The value returned when no terminal node is reached\<close>

text \<open>A robot walled off from the only key.\<close>

definition walled_key :: "char list list" where
  "walled_key = [''#####'', ''#@#a#'', ''#####'']"

definition walled_key_field :: Field where
  "walled_key_field =
     \<lparr>robots = {|Point 1 1|}, keys = {|Point 3 1|}, doors_keys = Map.empty, doors = {||},
      walls = {|Point 4 2, Point 3 2, Point 2 2, Point 1 2, Point 0 2, Point 4 1, Point 2 1,
                Point 0 1, Point 4 0, Point 3 0, Point 2 0, Point 1 0, Point 0 0|},
      x_max_value = 4, y_max_value = 2\<rparr>"

lemma walled_key_init: "Field_init walled_key = Inr walled_key_field"
  by (simp add: walled_key_def walled_key_field_def Field_init_def initialize_field_def
      from_string_lits)

lemma walled_key_nearest: "get_nearest_key walled_key_field (Point 1 1) = Inr None"
  by (simp add: get_nearest_key_def get_neighbors_def directions_def walled_key_field_def)

lemma walled_key_search:
  "search sorted_order inf0 walled_key =
     Inr \<lparr>result = inf0, visited = {}, states = [],
          enqueued = [\<lparr>field = walled_key_field, steps = 0\<rparr>], recorded = []\<rparr>"
proof -
  let ?n0 = "\<lparr>field = walled_key_field, steps = 0\<rparr>"
  let ?s0 = "\<lparr>result = inf0, visited = {}, states = [?n0], enqueued = [?n0], recorded = []\<rparr>"
  have k0: "keys_count (field ?n0) \<noteq> 0"
    by (simp add: keys_count_0 walled_key_field_def)
  have r0: "sorted_order (?s0\<lparr>states := []\<rparr>) ?n0 = [Point 1 1]"
    by (rule iterates_single [OF iterates_sorted]) (simp add: walled_key_field_def)
  have e0: "expand ?n0 [Point 1 1] (?s0\<lparr>states := []\<rparr>) = Inr (?s0\<lparr>states := []\<rparr>)"
    by (simp add: walled_key_nearest)
  have "solve_loop sorted_order ?s0 = solve_loop sorted_order (?s0\<lparr>states := []\<rparr>)"
    using solve_loop_expand [of ?s0 ?n0 "[]" sorted_order, OF _ k0] r0 e0 by simp
  also have "\<dots> = Inr (?s0\<lparr>states := []\<rparr>)"
    by (rule solve_loop_Nil) simp
  finally show ?thesis
    by (simp add: search_def walled_key_init)
qed

text \<open>
  Claim C1 says that \<^verbatim>\<open>solve\<close> returns 0 when the queue empties and no node without keys
  was dequeued. On the walled key the robot has no route, nothing is recorded, and the
  return statement compares \<^verbatim>\<open>result\<close> by identity with a new float object: the
  comparison \<^verbatim>\<open>is not\<close> holds and the float infinity of line 159 is returned.
\<close>

theorem solve_unreachable_returns_inf:
  "solve sorted_order walled_key = Inr (PyInf 0)"
  by (simp add: solve_def float_inf_def walled_key_search)

section \<open>What the search loop records and returns\<close>

text \<open>The signature of a node, and the number of keys it has left.\<close>

definition signature :: "State \<Rightarrow> FieldState" where
  "signature n = dump (field n)"

definition keys_left :: "State \<Rightarrow> nat" where
  "keys_left n = fcard (keys (field n))"

lemma signature_keys_left: "signature a = signature b \<Longrightarrow> keys_left a = keys_left b"
proof -
  assume "signature a = signature b"
  then have "keys_fs (signature a) = keys_fs (signature b)" by simp
  then show ?thesis by (simp add: signature_def dump_def keys_left_def)
qed

lemma expand_effect:
  "expand state rs s = Inr s' \<Longrightarrow>
   \<exists>new. states s' = states s @ new
       \<and> enqueued s' = enqueued s @ new
       \<and> visited s' = visited s \<union> set (map signature new)
       \<and> distinct (map signature new)
       \<and> set (map signature new) \<inter> visited s = {}
       \<and> (\<forall>n \<in> set new. keys_left n < keys_left state)
       \<and> result s' = result s \<and> recorded s' = recorded s"
proof (induction rs arbitrary: s)
  case Nil
  then show ?case by simp
next
  case (Cons robot rs)
  show ?case
  proof (cases "get_nearest_key (field state) robot")
    case (Inl e)
    with Cons.prems show ?thesis by simp
  next
    case (Inr po)
    show ?thesis
    proof (cases po)
      case None
      with Inr Cons show ?thesis by simp
    next
      case (Some path)
      show ?thesis
      proof (cases "collect_key (copy (field state)) (start_p path) (end_p path)")
        case (Inl e)
        with Inr Some Cons.prems show ?thesis by simp
      next
        case new: (Inr new_field)
        let ?n = "\<lparr>field = new_field, steps = steps state + length_p path\<rparr>"
        from collect_key_keys [OF new]
        have less: "keys_left ?n < keys_left state"
          using fcard_fminus1_less [of "end_p path" "keys (field state)"]
          by (simp add: copy_eq keys_left_def)
        show ?thesis
        proof (cases "dump new_field \<in> visited s")
          case True
          with Inr Some new Cons show ?thesis by simp
        next
          case False
          let ?s1 = "s\<lparr>visited := insert (dump new_field) (visited s),
                       states := states s @ [?n], enqueued := enqueued s @ [?n]\<rparr>"
          from Inr Some new False Cons.prems have "expand state rs ?s1 = Inr s'" by simp
          from Cons.IH [OF this] obtain new' where n':
            "states s' = states ?s1 @ new'"
            "enqueued s' = enqueued ?s1 @ new'"
            "visited s' = visited ?s1 \<union> set (map signature new')"
            "distinct (map signature new')"
            "set (map signature new') \<inter> visited ?s1 = {}"
            "\<forall>n \<in> set new'. keys_left n < keys_left state"
            "result s' = result ?s1" "recorded s' = recorded ?s1"
            by blast
          have sig: "signature ?n = dump new_field" by (simp add: signature_def)
          have "states s' = states s @ (?n # new')" using n'(1) by simp
          moreover have "enqueued s' = enqueued s @ (?n # new')" using n'(2) by simp
          moreover have "visited s' = visited s \<union> set (map signature (?n # new'))"
            using n'(3) sig by auto
          moreover have "distinct (map signature (?n # new'))"
            using n'(4) n'(5) sig by auto
          moreover have "set (map signature (?n # new')) \<inter> visited s = {}"
            using n'(5) sig False by auto
          moreover have "\<forall>n \<in> set (?n # new'). keys_left n < keys_left state"
            using n'(6) less by simp
          moreover have "result s' = result s \<and> recorded s' = recorded s"
            using n'(7) n'(8) by simp
          ultimately show ?thesis by blast
        qed
      qed
    qed
  qed
qed

text \<open>
  The invariant of the loop on the history: the nodes put on the queue after the first
  have pairwise different signatures, which are exactly the visited ones, and fewer keys
  than the first node; no node on the queue has more keys than the first.
\<close>

definition enqueued_once :: "solve_vars \<Rightarrow> bool" where
  "enqueued_once s =
     (case enqueued s of
        [] \<Rightarrow> False
      | n0 # cs \<Rightarrow>
          distinct (map signature cs)
          \<and> set (map signature cs) = visited s
          \<and> list_all (\<lambda>c. keys_left c < keys_left n0) cs
          \<and> list_all (\<lambda>n. keys_left n \<le> keys_left n0) (states s))"

lemma enqueued_once_distinct:
  "enqueued_once s \<Longrightarrow> distinct (map signature (enqueued s))"
proof -
  assume a: "enqueued_once s"
  then obtain n0 cs where e: "enqueued s = n0 # cs"
    by (cases "enqueued s") (auto simp: enqueued_once_def)
  with a have d: "distinct (map signature cs)"
    and l: "\<forall>c \<in> set cs. keys_left c < keys_left n0"
    by (auto simp: enqueued_once_def list_all_iff)
  have "signature n0 \<notin> set (map signature cs)"
  proof
    assume "signature n0 \<in> set (map signature cs)"
    then obtain c where "c \<in> set cs" "signature n0 = signature c" by auto
    with l signature_keys_left [of n0 c] show False by auto
  qed
  with d e show ?thesis by simp
qed

lemma solve_loop_enqueued_once:
  "solve_loop iter s = Inr s' \<Longrightarrow> enqueued_once s \<Longrightarrow> enqueued_once s'"
proof (induction iter s rule: solve_loop.induct)
  case (1 iter s)
  show ?case
  proof (cases "states s")
    case Nil
    with "1.prems" show ?thesis by (simp add: solve_loop_Nil)
  next
    case (Cons state rest)
    from "1.prems"(2) obtain n0 cs where e: "enqueued s = n0 # cs"
      by (cases "enqueued s") (auto simp: enqueued_once_def)
    from "1.prems"(2) e Cons have inv:
      "distinct (map signature cs)" "set (map signature cs) = visited s"
      "\<forall>c \<in> set cs. keys_left c < keys_left n0"
      "keys_left state \<le> keys_left n0" "\<forall>n \<in> set rest. keys_left n \<le> keys_left n0"
      by (auto simp: enqueued_once_def list_all_iff)
    show ?thesis
    proof (cases "keys_count (field state) = 0")
      case True
      let ?s1 = "s\<lparr>result := py_min (result s) (steps state), states := rest,
                    recorded := recorded s @ [state]\<rparr>"
      from "1.prems"(1) Cons True have run: "solve_loop iter ?s1 = Inr s'"
        by (simp add: solve_loop_terminal)
      have "enqueued_once ?s1"
        using inv e by (simp add: enqueued_once_def list_all_iff)
      with "1.IH"(1) [OF Cons True run] show ?thesis .
    next
      case False
      with "1.prems"(1) Cons obtain s1 where
        ex: "expand state (iter (s\<lparr>states := rest\<rparr>) state) (s\<lparr>states := rest\<rparr>) = Inr s1"
        and run: "solve_loop iter s1 = Inr s'"
        by (auto simp: solve_loop_expand split: sum.splits)
      from expand_effect [OF ex] obtain new where n:
        "states s1 = rest @ new" "enqueued s1 = n0 # cs @ new"
        "visited s1 = visited s \<union> set (map signature new)"
        "distinct (map signature new)" "set (map signature new) \<inter> visited s = {}"
        "\<forall>n \<in> set new. keys_left n < keys_left state"
        using e by auto
      have "enqueued_once s1"
        unfolding enqueued_once_def n(2) list.case
      proof (intro conjI)
        show "distinct (map signature (cs @ new))"
          using inv(1,2) n(4,5) by auto
        show "set (map signature (cs @ new)) = visited s1"
          using inv(2) n(3) by auto
        show "list_all (\<lambda>c. keys_left c < keys_left n0) (cs @ new)"
          using inv(3,4) n(6) by (auto simp: list_all_iff)
        show "list_all (\<lambda>n. keys_left n \<le> keys_left n0) (states s1)"
          using inv(4,5) n(1,6) by (auto simp: list_all_iff)
      qed
      with "1.IH"(2) [OF Cons False ex run] show ?thesis .
    qed
  qed
qed

lemma search_enqueued_once:
  "search iter inf0 data = Inr s \<Longrightarrow> enqueued_once s"
proof -
  assume a: "search iter inf0 data = Inr s"
  then obtain f where f: "Field_init data = Inr f"
    by (cases "Field_init data") (auto simp: search_def)
  let ?n = "\<lparr>field = f, steps = 0\<rparr>"
  let ?s0 = "\<lparr>result = inf0, visited = {}, states = [?n], enqueued = [?n], recorded = []\<rparr>"
  from a f have "solve_loop iter ?s0 = Inr s" by (simp add: search_def)
  moreover have "enqueued_once ?s0" by (simp add: enqueued_once_def)
  ultimately show ?thesis by (rule solve_loop_enqueued_once)
qed


text \<open>
  Claim C3. In a run of the search every signature is put on the queue at most once, the
  first node included; and in the loop over the robots a child whose signature is
  already visited changes nothing, whatever the distance of its parent.
\<close>

theorem signature_enqueued_once:
  "(search iter inf0 data = Inr s \<longrightarrow> distinct (map signature (enqueued s)))
   \<and> (get_nearest_key (field state) robot = Inr (Some path)
        \<and> collect_key (copy (field state)) (start_p path) (end_p path) = Inr new_field
        \<and> dump new_field \<in> visited v
      \<longrightarrow> expand state (robot # rs) v = expand state rs v)"
proof (intro conjI impI)
  assume "search iter inf0 data = Inr s"
  then have "enqueued_once s" by (rule search_enqueued_once)
  then show "distinct (map signature (enqueued s))" by (rule enqueued_once_distinct)
next
  assume "get_nearest_key (field state) robot = Inr (Some path)
        \<and> collect_key (copy (field state)) (start_p path) (end_p path) = Inr new_field
        \<and> dump new_field \<in> visited v"
  then show "expand state (robot # rs) v = expand state rs v" by simp
qed

subsection \<open>A run with two robots\<close>

text \<open>
  Two robots in two rooms. The upper robot reaches key \<^verbatim>\<open>b\<close> in 4 moves round the wall, or
  in 2 through door \<^verbatim>\<open>A\<close> once the lower robot has taken key \<^verbatim>\<open>a\<close>, which is 1 move from it.
\<close>

definition detour :: "char list list" where
  "detour = [''#####'', ''#@Ab#'', ''#...#'', ''#####'', ''#@a##'', ''#####'']"

definition detour_walls :: "Point fset" where
  "detour_walls =
     {|Point 4 5, Point 3 5, Point 2 5, Point 1 5, Point 0 5,
       Point 4 4, Point 3 4, Point 0 4,
       Point 4 3, Point 3 3, Point 2 3, Point 1 3, Point 0 3,
       Point 4 2, Point 0 2, Point 4 1, Point 0 1,
       Point 4 0, Point 3 0, Point 2 0, Point 1 0, Point 0 0|}"

definition detour_field :: "Point fset \<Rightarrow> Point fset \<Rightarrow> Field" where
  "detour_field rs ks =
     \<lparr>robots = rs, keys = ks, doors_keys = [Point 2 1 \<mapsto> Point 2 4], doors = {|Point 2 1|},
      walls = detour_walls, x_max_value = 4, y_max_value = 5\<rparr>"

lemma detour_init:
  "Field_init detour = Inr (detour_field {|Point 1 4, Point 1 1|} {|Point 2 4, Point 3 1|})"
  by (simp add: detour_def detour_field_def detour_walls_def Field_init_def initialize_field_def
      from_string_lits lower_A)

lemma detour_order_0:
  "sorted_order s \<lparr>field = detour_field {|Point 1 4, Point 1 1|} ks, steps = n\<rparr>
     = [Point 1 1, Point 1 4]"
  by (simp add: sorted_order_def detour_field_def sorted_list_of_fset.rep_eq less_eq_Point_def)


abbreviation detour_P :: Field where
  "detour_P \<equiv> detour_field {|Point 1 4, Point 1 1|} {|Point 2 4, Point 3 1|}"
abbreviation detour_B :: Field where
  "detour_B \<equiv> detour_field {|Point 3 1, Point 1 4|} {|Point 2 4|}"
abbreviation detour_A :: Field where
  "detour_A \<equiv> detour_field {|Point 2 4, Point 1 1|} {|Point 3 1|}"
abbreviation detour_AB :: Field where
  "detour_AB \<equiv> detour_field {|Point 2 4, Point 3 1|} {||}"

lemma detour_order_B:
  "sorted_order s \<lparr>field = detour_B, steps = n\<rparr> = [Point 1 4, Point 3 1]"
  by (simp add: sorted_order_def detour_field_def sorted_list_of_fset.rep_eq less_eq_Point_def)

lemma detour_order_A:
  "sorted_order s \<lparr>field = detour_A, steps = n\<rparr> = [Point 1 1, Point 2 4]"
  by (simp add: sorted_order_def detour_field_def sorted_list_of_fset.rep_eq less_eq_Point_def)

lemmas detour_eval = get_nearest_key_def get_neighbors_def directions_def detour_field_def
  detour_walls_def

lemma detour_P_upper:
  "get_nearest_key detour_P (Point 1 1)
     = Inr (Some \<lparr>length_p = 4, start_p = Point 1 1, end_p = Point 3 1\<rparr>)"
  by (simp add: detour_eval)

lemma detour_P_lower:
  "get_nearest_key detour_P (Point 1 4)
     = Inr (Some \<lparr>length_p = 1, start_p = Point 1 4, end_p = Point 2 4\<rparr>)"
  by (simp add: detour_eval)

lemma detour_B_lower:
  "get_nearest_key detour_B (Point 1 4)
     = Inr (Some \<lparr>length_p = 1, start_p = Point 1 4, end_p = Point 2 4\<rparr>)"
  by (simp add: detour_eval)

lemma detour_B_upper: "get_nearest_key detour_B (Point 3 1) = Inr None"
  by (simp add: detour_eval)

lemma detour_A_upper:
  "get_nearest_key detour_A (Point 1 1)
     = Inr (Some \<lparr>length_p = 2, start_p = Point 1 1, end_p = Point 3 1\<rparr>)"
  by (simp add: detour_eval)

lemma detour_A_lower: "get_nearest_key detour_A (Point 2 4) = Inr None"
  by (simp add: detour_eval)

lemma detour_collect:
  "collect_key (copy detour_P) (Point 1 1) (Point 3 1) = Inr detour_B"
  "collect_key (copy detour_P) (Point 1 4) (Point 2 4) = Inr detour_A"
  "collect_key (copy detour_B) (Point 1 4) (Point 2 4) = Inr detour_AB"
  "collect_key (copy detour_A) (Point 1 1) (Point 3 1)
     = Inr (detour_field {|Point 3 1, Point 2 4|} {||})"
  by (auto simp: collect_key_def copy_def detour_field_def)

lemma detour_same_signature:
  "dump (detour_field {|Point 3 1, Point 2 4|} {||}) = dump detour_AB"
  by (auto simp: dump_def detour_field_def)

lemma detour_signatures:
  "dump detour_A \<noteq> dump detour_B" "dump detour_AB \<noteq> dump detour_A"
  "dump detour_AB \<noteq> dump detour_B"
  by (auto simp: dump_def detour_field_def)


lemma detour_search:
  "search sorted_order inf0 detour =
     Inr \<lparr>result = py_min inf0 5,
          visited = {dump detour_AB, dump detour_A, dump detour_B},
          states = [],
          enqueued = [\<lparr>field = detour_P, steps = 0\<rparr>, \<lparr>field = detour_B, steps = 4\<rparr>,
                      \<lparr>field = detour_A, steps = 1\<rparr>, \<lparr>field = detour_AB, steps = 5\<rparr>],
          recorded = [\<lparr>field = detour_AB, steps = 5\<rparr>]\<rparr>"
proof -
  let ?P = "\<lparr>field = detour_P, steps = 0\<rparr>"
  let ?B = "\<lparr>field = detour_B, steps = 4\<rparr>"
  let ?A = "\<lparr>field = detour_A, steps = 1\<rparr>"
  let ?AB = "\<lparr>field = detour_AB, steps = 5\<rparr>"
  let ?s0 = "\<lparr>result = inf0, visited = {}, states = [?P], enqueued = [?P], recorded = []\<rparr>"
  let ?s1 = "\<lparr>result = inf0, visited = {dump detour_A, dump detour_B}, states = [?B, ?A],
              enqueued = [?P, ?B, ?A], recorded = []\<rparr>"
  let ?s2 = "\<lparr>result = inf0, visited = {dump detour_AB, dump detour_A, dump detour_B},
              states = [?A, ?AB], enqueued = [?P, ?B, ?A, ?AB], recorded = []\<rparr>"
  let ?s3 = "\<lparr>result = inf0, visited = {dump detour_AB, dump detour_A, dump detour_B},
              states = [?AB], enqueued = [?P, ?B, ?A, ?AB], recorded = []\<rparr>"
  let ?s4 = "\<lparr>result = py_min inf0 5, visited = {dump detour_AB, dump detour_A, dump detour_B},
              states = [], enqueued = [?P, ?B, ?A, ?AB], recorded = [?AB]\<rparr>"
  have kP: "keys_count (field ?P) \<noteq> 0" and kB: "keys_count (field ?B) \<noteq> 0"
    and kA: "keys_count (field ?A) \<noteq> 0" and kAB: "keys_count (field ?AB) = 0"
    by (simp_all add: keys_count_0 detour_field_def)
  have eP: "expand ?P [Point 1 1, Point 1 4] (?s0\<lparr>states := []\<rparr>) = Inr ?s1"
    using detour_signatures by (simp add: detour_P_upper detour_P_lower detour_collect)
  have eB: "expand ?B [Point 1 4, Point 3 1] (?s1\<lparr>states := [?A]\<rparr>) = Inr ?s2"
    using detour_signatures by (simp add: detour_B_upper detour_B_lower detour_collect)
  have eA: "expand ?A [Point 1 1, Point 2 4] (?s2\<lparr>states := [?AB]\<rparr>) = Inr ?s3"
    by (simp add: detour_A_upper detour_A_lower detour_collect detour_same_signature)
  have "solve_loop sorted_order ?s0 = solve_loop sorted_order ?s1"
    using solve_loop_expand [of ?s0 ?P "[]" sorted_order, OF _ kP] eP
    by (simp add: detour_order_0)
  also have "\<dots> = solve_loop sorted_order ?s2"
    using solve_loop_expand [of ?s1 ?B "[?A]" sorted_order, OF _ kB] eB
    by (simp add: detour_order_B)
  also have "\<dots> = solve_loop sorted_order ?s3"
    using solve_loop_expand [of ?s2 ?A "[?AB]" sorted_order, OF _ kA] eA
    by (simp add: detour_order_A)
  also have "\<dots> = solve_loop sorted_order ?s4"
    using solve_loop_terminal [of ?s3 ?AB "[]" sorted_order, OF _ kAB] by simp
  also have "\<dots> = Inr ?s4"
    by (rule solve_loop_Nil) simp
  finally show ?thesis
    by (simp add: search_def detour_init)
qed

lemma detour_solve: "solve sorted_order detour = Inr (PyInt 5)"
  by (simp add: solve_def float_inf_def detour_search)

definition detour_final :: solve_vars where
  "detour_final =
     \<lparr>result = PyInt 5,
      visited = {dump detour_AB, dump detour_A, dump detour_B},
      states = [],
      enqueued = [\<lparr>field = detour_P, steps = 0\<rparr>, \<lparr>field = detour_B, steps = 4\<rparr>,
                  \<lparr>field = detour_A, steps = 1\<rparr>, \<lparr>field = detour_AB, steps = 5\<rparr>],
      recorded = [\<lparr>field = detour_AB, steps = 5\<rparr>]\<rparr>"

definition detour_third_round :: solve_vars where
  "detour_third_round =
     \<lparr>result = PyInf 0,
      visited = {dump detour_AB, dump detour_A, dump detour_B},
      states = [\<lparr>field = detour_AB, steps = 5\<rparr>],
      enqueued = [\<lparr>field = detour_P, steps = 0\<rparr>, \<lparr>field = detour_B, steps = 4\<rparr>,
                  \<lparr>field = detour_A, steps = 1\<rparr>, \<lparr>field = detour_AB, steps = 5\<rparr>],
      recorded = []\<rparr>"

text \<open>
  The run on this grid, with the robots visited in sorted order. The first node is
  expanded into \<open>B\<close> (upper robot on key \<^verbatim>\<open>b\<close>, distance 4) and \<open>A\<close> (lower robot on key
  \<^verbatim>\<open>a\<close>, distance 1); \<open>B\<close> is expanded first and enqueues the node with both keys at
  distance 5; the same signature then comes up as a child of \<open>A\<close> at distance 3 and
  is dropped.
\<close>

theorem signature_enqueued_once_witness:
  "search sorted_order (PyInf 0) detour = Inr detour_final
   \<and> map steps (enqueued detour_final) = [0, 4, 1, 5]
   \<and> distinct (map signature (enqueued detour_final))
   \<and> get_nearest_key detour_A (Point 1 1)
       = Inr (Some \<lparr>length_p = 2, start_p = Point 1 1, end_p = Point 3 1\<rparr>)
   \<and> collect_key (copy detour_A) (Point 1 1) (Point 3 1)
       = Inr (detour_field {|Point 3 1, Point 2 4|} {||})
   \<and> dump (detour_field {|Point 3 1, Point 2 4|} {||}) = dump detour_AB
   \<and> dump detour_AB \<in> visited detour_third_round
   \<and> expand \<lparr>field = detour_A, steps = 1\<rparr> [Point 1 1, Point 2 4] detour_third_round
       = Inr detour_third_round"
proof -
  have run: "search sorted_order (PyInf 0) detour = Inr detour_final"
    by (simp add: detour_search detour_final_def)
  have vis: "dump (detour_field {|Point 3 1, Point 2 4|} {||}) \<in> visited detour_third_round"
    by (simp add: detour_same_signature detour_third_round_def)
  note inst = signature_enqueued_once [of sorted_order "PyInf 0" detour detour_final
      "\<lparr>field = detour_A, steps = 1\<rparr>" "Point 1 1"
      "\<lparr>length_p = 2, start_p = Point 1 1, end_p = Point 3 1\<rparr>"
      "detour_field {|Point 3 1, Point 2 4|} {||}" detour_third_round "[Point 2 4]"]
  from inst run have d: "distinct (map signature (enqueued detour_final))"
    by blast
  from inst detour_A_upper detour_collect(4) vis
  have "expand \<lparr>field = detour_A, steps = 1\<rparr> [Point 1 1, Point 2 4] detour_third_round
      = expand \<lparr>field = detour_A, steps = 1\<rparr> [Point 2 4] detour_third_round"
    by simp
  also have "\<dots> = Inr detour_third_round"
    by (simp add: detour_A_lower)
  finally have e: "expand \<lparr>field = detour_A, steps = 1\<rparr> [Point 1 1, Point 2 4] detour_third_round
      = Inr detour_third_round" .
  have st: "map steps (enqueued detour_final) = [0, 4, 1, 5]"
    by (simp add: detour_final_def)
  have v2: "dump detour_AB \<in> visited detour_third_round"
    by (simp add: detour_third_round_def)
  from run st d detour_A_upper detour_collect(4) detour_same_signature v2 e
  show ?thesis by (simp only: simp_thms)
qed

section \<open>The value of result at the exit of the loop\<close>

lemma foldl_py_min:
  "foldl py_min (PyInf i) xs = (if xs = [] then PyInf i else PyInt (Min (set xs)))"
proof (induction xs rule: rev_induct)
  case Nil
  show ?case by simp
next
  case (snoc x xs)
  show ?case
  proof (cases "xs = []")
    case True
    then show ?thesis by simp
  next
    case False
    have m: "Min (set (xs @ [x])) = min x (Min (set xs))"
      using False by (simp add: Min_insert)
    have p: "py_min (PyInt r) x = PyInt (min x r)" for r
      by (simp add: min_def)
    have "foldl py_min (PyInf i) (xs @ [x]) = py_min (PyInt (Min (set xs))) x"
      using snoc False by simp
    also have "\<dots> = PyInt (Min (set (xs @ [x])))"
      by (simp only: p m)
    finally show ?thesis by simp
  qed
qed

lemma solve_loop_result:
  "solve_loop iter s = Inr s' \<Longrightarrow> result s = foldl py_min inf0 (map steps (recorded s)) \<Longrightarrow>
   result s' = foldl py_min inf0 (map steps (recorded s'))"
proof (induction iter s rule: solve_loop.induct)
  case (1 iter s)
  show ?case
  proof (cases "states s")
    case Nil
    with "1.prems" show ?thesis by (simp add: solve_loop_Nil)
  next
    case (Cons state rest)
    show ?thesis
    proof (cases "keys_count (field state) = 0")
      case True
      let ?s1 = "s\<lparr>result := py_min (result s) (steps state), states := rest,
                    recorded := recorded s @ [state]\<rparr>"
      from "1.prems"(1) Cons True have run: "solve_loop iter ?s1 = Inr s'"
        by (simp add: solve_loop_terminal)
      have "result ?s1 = foldl py_min inf0 (map steps (recorded ?s1))"
        using "1.prems"(2) by simp
      with "1.IH"(1) [OF Cons True run] show ?thesis .
    next
      case False
      with "1.prems"(1) Cons obtain s1 where
        ex: "expand state (iter (s\<lparr>states := rest\<rparr>) state) (s\<lparr>states := rest\<rparr>) = Inr s1"
        and run: "solve_loop iter s1 = Inr s'"
        by (auto simp: solve_loop_expand split: sum.splits)
      from expand_effect [OF ex] have "result s1 = result s" "recorded s1 = recorded s"
        by auto
      with "1.prems"(2) have "result s1 = foldl py_min inf0 (map steps (recorded s1))"
        by simp
      with "1.IH"(2) [OF Cons False ex run] show ?thesis .
    qed
  qed
qed

text \<open>
  What \<^verbatim>\<open>solve\<close> returns when the search ends: the least distance among the recorded
  nodes when there is one, and otherwise the float infinity of line 159.
\<close>

lemma solve_returns:
  assumes "search iter (PyInf 0) data = Inr s"
  shows "solve iter data =
     Inr (if recorded s = [] then PyInf 0 else PyInt (Min (set (map steps (recorded s)))))"
proof -
  from assms obtain f where f: "Field_init data = Inr f"
    by (cases "Field_init data") (auto simp: search_def)
  let ?n = "\<lparr>field = f, steps = 0\<rparr>"
  let ?s0 = "\<lparr>result = PyInf 0, visited = {}, states = [?n], enqueued = [?n], recorded = []\<rparr>"
  from assms f have "solve_loop iter ?s0 = Inr s" by (simp add: search_def)
  then have "result s = foldl py_min (PyInf 0) (map steps (recorded s))"
    by (rule solve_loop_result) simp
  then have r: "result s = (if recorded s = [] then PyInf 0 else PyInt (Min (set (map steps (recorded s)))))"
    by (simp add: foldl_py_min)
  show ?thesis
    using assms r by (simp add: solve_def float_inf_def)
qed

section \<open>Field objects in a store: copy and aliasing\<close>

text \<open>
  A \<^verbatim>\<open>Field\<close> object holds references to three set objects for its geometry and to two
  set objects \<^verbatim>\<open>_robots\<close> and \<^verbatim>\<open>_keys\<close> that \<^verbatim>\<open>collect_key\<close> mutates in place. The store maps a
  reference to the contents of the set or dict object it denotes; \<open>next_ref\<close> is the first
  reference not yet given out, and a new object takes it.
\<close>

type_synonym ref = nat

record store =
  sets :: "ref \<Rightarrow> Point fset"
  dicts :: "ref \<Rightarrow> (Point \<rightharpoonup> Point)"
  next_ref :: ref

record Field_obj =
  o_robots :: ref
  o_keys :: ref
  o_doors_keys :: ref
  o_doors :: ref
  o_walls :: ref
  o_x_max_value :: int
  o_y_max_value :: int

text \<open>\<^verbatim>\<open>set.copy()\<close>: a new set object with the elements of the old one.\<close>

definition set_copy :: "ref \<Rightarrow> store \<Rightarrow> ref \<times> store" where
  "set_copy r h =
     (next_ref h, h\<lparr>sets := (sets h)(next_ref h := sets h r), next_ref := Suc (next_ref h)\<rparr>)"

text \<open>\<^verbatim>\<open>Field.copy\<close>: two new set objects; the other five attributes are assigned, so the
  copy refers to the very objects of the original.\<close>

definition copy_obj :: "Field_obj \<Rightarrow> store \<Rightarrow> Field_obj \<times> store" where
  "copy_obj self h =
     (let (r, h1) = set_copy (o_robots self) h;
          (k, h2) = set_copy (o_keys self) h1
      in (\<lparr>o_robots = r, o_keys = k,
           o_doors_keys = o_doors_keys self, o_doors = o_doors self, o_walls = o_walls self,
           o_x_max_value = o_x_max_value self, o_y_max_value = o_y_max_value self\<rparr>, h2))"

text \<open>
  \<^verbatim>\<open>Field.collect_key\<close> on the store: each statement updates the set object in place, and a
  KeyError leaves the updates made before it. The result is the exception, if any, and
  the store.
\<close>

definition collect_key_obj :: "Field_obj \<Rightarrow> Point \<Rightarrow> Point \<Rightarrow> store \<Rightarrow> error option \<times> store" where
  "collect_key_obj self robot_position key_position h =
     (if robot_position |\<notin>| sets h (o_robots self) then (Some KeyError, h)
      else
        let h1 = h\<lparr>sets := (sets h)(o_robots self := sets h (o_robots self) |-| {|robot_position|})\<rparr>;
            h2 = h1\<lparr>sets := (sets h1)(o_robots self := finsert key_position (sets h1 (o_robots self)))\<rparr>
        in if key_position |\<notin>| sets h2 (o_keys self) then (Some KeyError, h2)
           else (None, h2\<lparr>sets := (sets h2)(o_keys self := sets h2 (o_keys self) |-| {|key_position|})\<rparr>))"

text \<open>Any number of \<^verbatim>\<open>collect_key\<close> calls on one object, whether they raise or not.\<close>

fun collect_keys_obj :: "Field_obj \<Rightarrow> (Point \<times> Point) list \<Rightarrow> store \<Rightarrow> store" where
  "collect_keys_obj self [] h = h"
| "collect_keys_obj self ((r, k) # calls) h =
     collect_keys_obj self calls (snd (collect_key_obj self r k h))"

text \<open>The contents of a field object: the field value that the algorithms work on.\<close>

definition field_of :: "store \<Rightarrow> Field_obj \<Rightarrow> Field" where
  "field_of h self =
     \<lparr>robots = sets h (o_robots self), keys = sets h (o_keys self),
      doors_keys = dicts h (o_doors_keys self),
      doors = sets h (o_doors self), walls = sets h (o_walls self),
      x_max_value = o_x_max_value self, y_max_value = o_y_max_value self\<rparr>"

text \<open>The object's set and dict objects exist in the store.\<close>

definition allocated :: "Field_obj \<Rightarrow> store \<Rightarrow> bool" where
  "allocated self h =
     (o_robots self < next_ref h \<and> o_keys self < next_ref h \<and> o_doors self < next_ref h
      \<and> o_walls self < next_ref h \<and> o_doors_keys self < next_ref h)"

lemma collect_key_obj_frame:
  "r' \<noteq> o_robots self \<Longrightarrow> r' \<noteq> o_keys self \<Longrightarrow>
   sets (snd (collect_key_obj self r k h)) r' = sets h r'"
  by (simp add: collect_key_obj_def Let_def)

lemma collect_key_obj_dicts:
  "dicts (snd (collect_key_obj self r k h)) = dicts h"
  by (simp add: collect_key_obj_def Let_def)

lemma collect_keys_obj_frame:
  "r' \<noteq> o_robots self \<Longrightarrow> r' \<noteq> o_keys self \<Longrightarrow>
   sets (collect_keys_obj self calls h) r' = sets h r'"
proof (induction calls arbitrary: h)
  case Nil
  show ?case by simp
next
  case (Cons c calls)
  obtain r k where c: "c = (r, k)" by (cases c)
  show ?case
    unfolding c using Cons.IH [OF Cons.prems] collect_key_obj_frame [OF Cons.prems]
    by simp
qed

lemma collect_keys_obj_dicts:
  "dicts (collect_keys_obj self calls h) = dicts h"
proof (induction calls arbitrary: h)
  case Nil
  show ?case by simp
next
  case (Cons c calls)
  obtain r k where c: "c = (r, k)" by (cases c)
  show ?case
    unfolding c using Cons.IH collect_key_obj_dicts by simp
qed

lemma copy_obj_effect:
  assumes "copy_obj self h = (c, h1)"
  shows "o_robots c = next_ref h" and "o_keys c = Suc (next_ref h)"
    and "o_doors_keys c = o_doors_keys self" and "o_doors c = o_doors self"
    and "o_walls c = o_walls self"
    and "o_x_max_value c = o_x_max_value self" and "o_y_max_value c = o_y_max_value self"
    and "dicts h1 = dicts h"
    and "sets h1 (o_robots c) = sets h (o_robots self)"
    and "o_keys self < next_ref h \<Longrightarrow> sets h1 (o_keys c) = sets h (o_keys self)"
    and "\<And>r. r < next_ref h \<Longrightarrow> sets h1 r = sets h r"
  using assms by (auto simp: copy_obj_def set_copy_def Let_def)

text \<open>The store operations do on the contents what \<^verbatim>\<open>copy\<close> and \<^verbatim>\<open>collect_key\<close> do on
  field values, for an object whose two mutable sets are objects of their own.\<close>

definition separate :: "Field_obj \<Rightarrow> bool" where
  "separate self =
     (o_robots self \<noteq> o_keys self
      \<and> o_robots self \<noteq> o_doors self \<and> o_robots self \<noteq> o_walls self
      \<and> o_keys self \<noteq> o_doors self \<and> o_keys self \<noteq> o_walls self)"

lemma copy_obj_refines:
  "allocated self h \<Longrightarrow> copy_obj self h = (c, h1) \<Longrightarrow>
   field_of h1 c = copy (field_of h self) \<and> separate c \<and> allocated c h1"
  by (auto simp: copy_obj_def set_copy_def Let_def field_of_def copy_def allocated_def separate_def)

lemma collect_key_obj_refines:
  "separate self \<Longrightarrow> collect_key (field_of h self) r k = Inr f' \<Longrightarrow>
   collect_key_obj self r k h = (None, h') \<Longrightarrow> field_of h' self = f'"
  by (auto simp: collect_key_def collect_key_obj_def Let_def field_of_def separate_def
      split: if_splits)

lemma collect_key_obj_raises:
  "separate self \<Longrightarrow>
   fst (collect_key_obj self r k h) = (case collect_key (field_of h self) r k of
                                          Inl e \<Rightarrow> Some e | Inr f' \<Rightarrow> None)"
  by (auto simp: collect_key_def collect_key_obj_def Let_def field_of_def separate_def)


text \<open>
  Claim C6. The copy of a field object refers to the geometry objects of the original
  and to two new set objects with the contents of the original's; and whatever
  \<^verbatim>\<open>collect_key\<close> calls are made on the copy afterwards, the contents of the original,
  its robots and its remaining keys among them, stay what they were.
\<close>

theorem copy_independent:
  "allocated self h \<Longrightarrow> copy_obj self h = (c, h1) \<Longrightarrow>
     (o_doors_keys c = o_doors_keys self \<and> o_doors c = o_doors self \<and> o_walls c = o_walls self)
   \<and> (o_robots c \<noteq> o_robots self \<and> o_robots c \<noteq> o_keys self
        \<and> o_keys c \<noteq> o_robots self \<and> o_keys c \<noteq> o_keys self \<and> o_robots c \<noteq> o_keys c)
   \<and> field_of h1 c = field_of h self
   \<and> (\<forall>calls. field_of (collect_keys_obj c calls h1) self = field_of h self)"
proof -
  assume al: "allocated self h" and cp: "copy_obj self h = (c, h1)"
  note e = copy_obj_effect [OF cp]
  from al have lt: "o_robots self < next_ref h" "o_keys self < next_ref h"
    "o_doors self < next_ref h" "o_walls self < next_ref h"
    by (simp_all add: allocated_def)
  have shared: "o_doors_keys c = o_doors_keys self \<and> o_doors c = o_doors self \<and> o_walls c = o_walls self"
    using e(3,4,5) by simp
  have fresh: "o_robots c \<noteq> o_robots self \<and> o_robots c \<noteq> o_keys self
        \<and> o_keys c \<noteq> o_robots self \<and> o_keys c \<noteq> o_keys self \<and> o_robots c \<noteq> o_keys c"
    using e(1,2) lt by simp
  have same: "field_of h1 c = field_of h self"
    using copy_obj_refines [OF al cp] by (simp add: copy_eq)
  have frame: "field_of (collect_keys_obj c calls h1) self = field_of h self" for calls
  proof -
    have "sets (collect_keys_obj c calls h1) r = sets h r" if "r < next_ref h" for r
    proof -
      from that e(1,2) have "r \<noteq> o_robots c" "r \<noteq> o_keys c" by simp_all
      then have "sets (collect_keys_obj c calls h1) r = sets h1 r"
        by (rule collect_keys_obj_frame)
      with e(11) [OF that] show ?thesis by simp
    qed
    with lt show ?thesis
      by (simp add: field_of_def collect_keys_obj_dicts e(8))
  qed
  from shared fresh same frame show ?thesis by blast
qed

text \<open>The fixture as an object in a store with five objects.\<close>

definition fixture_store :: store where
  "fixture_store =
     \<lparr>sets = (\<lambda>r. {||})(0 := robots fixture_field, 1 := keys fixture_field,
                         2 := doors fixture_field, 3 := walls fixture_field),
      dicts = (\<lambda>r. Map.empty)(4 := doors_keys fixture_field),
      next_ref = 5\<rparr>"

definition fixture_obj :: Field_obj where
  "fixture_obj = \<lparr>o_robots = 0, o_keys = 1, o_doors_keys = 4, o_doors = 2, o_walls = 3,
                   o_x_max_value = 8, o_y_max_value = 2\<rparr>"

theorem copy_independent_witness:
  "allocated fixture_obj fixture_store
   \<and> o_robots (fst (copy_obj fixture_obj fixture_store)) = 5
   \<and> o_keys (fst (copy_obj fixture_obj fixture_store)) = 6
   \<and> field_of fixture_store fixture_obj = fixture_field
   \<and> field_of (collect_keys_obj (fst (copy_obj fixture_obj fixture_store)) [(Point 5 1, Point 7 1)]
                 (snd (copy_obj fixture_obj fixture_store)))
        (fst (copy_obj fixture_obj fixture_store)) = fixture_field_a
   \<and> field_of (collect_keys_obj (fst (copy_obj fixture_obj fixture_store)) [(Point 5 1, Point 7 1)]
                 (snd (copy_obj fixture_obj fixture_store)))
        fixture_obj = fixture_field"
proof -
  let ?c = "fst (copy_obj fixture_obj fixture_store)"
  let ?h1 = "snd (copy_obj fixture_obj fixture_store)"
  have al: "allocated fixture_obj fixture_store"
    by (simp add: allocated_def fixture_obj_def fixture_store_def)
  have cp: "copy_obj fixture_obj fixture_store = (?c, ?h1)"
    by simp
  have f0: "field_of fixture_store fixture_obj = fixture_field"
    by (simp add: field_of_def fixture_obj_def fixture_store_def fixture_field_def)
  note inst = copy_independent [OF al cp]
  from inst have frame: "field_of (collect_keys_obj ?c calls ?h1) fixture_obj
      = field_of fixture_store fixture_obj" for calls
    by blast
  have parent: "field_of (collect_keys_obj ?c [(Point 5 1, Point 7 1)] ?h1) fixture_obj = fixture_field"
    by (simp only: frame f0)
  have child: "field_of (collect_keys_obj ?c [(Point 5 1, Point 7 1)] ?h1) ?c = fixture_field_a"
    by (simp add: copy_obj_def set_copy_def Let_def collect_key_obj_def field_of_def
        fixture_obj_def fixture_store_def fixture_field_def fixture_field_a_def)
  have refs: "o_robots ?c = 5" "o_keys ?c = 6"
    by (simp_all add: copy_obj_def set_copy_def Let_def fixture_obj_def fixture_store_def)
  from al refs f0 child parent show ?thesis by (simp only: simp_thms)
qed

section \<open>Nearest key: correctness of the breadth-first search\<close>

text \<open>
  One move: to an orthogonally adjacent cell that may be entered. A route of \<open>n\<close> moves
  from \<open>s\<close> to \<open>v\<close>: every cell after the start is entered by one move.
\<close>

definition adjacent :: "Point \<Rightarrow> Point list" where
  "adjacent p = [below p, right_of p, above p, left_of p]"

definition hop :: "Field \<Rightarrow> Point \<Rightarrow> Point \<Rightarrow> bool" where
  "hop f a b = (b \<in> set (adjacent a) \<and> admissible f b)"

fun reach :: "Field \<Rightarrow> Point \<Rightarrow> nat \<Rightarrow> Point \<Rightarrow> bool" where
  "reach f s 0 v = (v = s)"
| "reach f s (Suc n) v = (\<exists>u. reach f s n u \<and> hop f u v)"

lemma get_neighbors_hops:
  "doors_linked f \<Longrightarrow> \<exists>ns. get_neighbors f p = Inr ns \<and> set ns = {v. hop f p v}"
  by (auto simp: get_neighbors_linked hop_def adjacent_def)

lemma visit_neighbors_spec:
  "distance c = Some d \<Longrightarrow>
   \<exists>new. visit_neighbors c ns distance queue
            = Inr (\<lambda>v. if v \<in> set new then Some (d + 1) else distance v, queue @ new)
        \<and> distinct new \<and> set new = set ns - dom distance"
proof (induction ns arbitrary: distance queue)
  case Nil
  have "visit_neighbors c [] distance queue
            = Inr (\<lambda>v. if v \<in> set [] then Some (d + 1) else distance v, queue @ [])
        \<and> distinct ([] :: Point list) \<and> set [] = set [] - dom distance"
    by simp
  then show ?case by blast
next
  case (Cons n ns)
  show ?case
  proof (cases "distance n \<noteq> None")
    case True
    from Cons.IH [of distance queue, OF Cons.prems] obtain new where new:
      "visit_neighbors c ns distance queue
            = Inr (\<lambda>v. if v \<in> set new then Some (d + 1) else distance v, queue @ new)"
      "distinct new" "set new = set ns - dom distance"
      by blast
    from True new(3) have "set new = set (n # ns) - dom distance" by auto
    with True new(1,2) show ?thesis by auto
  next
    case False
    let ?d1 = "distance(n \<mapsto> d + 1)"
    from False Cons.prems have "n \<noteq> c" by auto
    then have c1: "?d1 c = Some d" using Cons.prems by simp
    from Cons.IH [of ?d1 "queue @ [n]", OF c1] obtain new where new:
      "visit_neighbors c ns ?d1 (queue @ [n])
            = Inr (\<lambda>v. if v \<in> set new then Some (d + 1) else ?d1 v, (queue @ [n]) @ new)"
      "distinct new" "set new = set ns - dom ?d1"
      by blast
    have run: "visit_neighbors c (n # ns) distance queue = visit_neighbors c ns ?d1 (queue @ [n])"
      using False Cons.prems by simp
    have eq: "(\<lambda>v. if v \<in> set new then Some (d + 1) else ?d1 v)
            = (\<lambda>v. if v \<in> set (n # new) then Some (d + 1) else distance v)"
      by (rule ext) simp
    have "visit_neighbors c (n # ns) distance queue
            = Inr (\<lambda>v. if v \<in> set (n # new) then Some (d + 1) else distance v, queue @ (n # new))"
      unfolding run new(1) eq by simp
    moreover have "distinct (n # new)" using new(2,3) by auto
    moreover have "set (n # new) = set (n # ns) - dom distance" using new(3) False by auto
    ultimately show ?thesis by blast
  qed
qed

text \<open>
  The invariant of the \<^verbatim>\<open>while queue\<close> loop. The start is in \<^verbatim>\<open>distance\<close>; the queue has no
  cell twice and only cells with a distance; a recorded distance is the length of a
  shortest route; the queue holds cells of some distance \<open>k\<close> followed by cells of
  distance \<open>k + 1\<close>; and a cell that has left the queue holds no key and has all the cells
  one move away in \<^verbatim>\<open>distance\<close>.
\<close>

definition shortest :: "Field \<Rightarrow> Point \<Rightarrow> Point \<Rightarrow> int \<Rightarrow> bool" where
  "shortest f s v d = (0 \<le> d \<and> reach f s (nat d) v \<and> (\<forall>n. reach f s n v \<longrightarrow> nat d \<le> n))"

definition bfs_inv :: "Field \<Rightarrow> Point \<Rightarrow> (Point \<rightharpoonup> int) \<Rightarrow> Point list \<Rightarrow> bool" where
  "bfs_inv f s distance queue =
     (distance s \<noteq> None
      \<and> distinct queue \<and> set queue \<subseteq> dom distance
      \<and> (\<forall>v d. distance v = Some d \<longrightarrow> shortest f s v d)
      \<and> (\<exists>k A B. queue = A @ B \<and> (\<forall>v \<in> set A. distance v = Some k)
                              \<and> (\<forall>v \<in> set B. distance v = Some (k + 1)))
      \<and> (\<forall>v. v \<in> dom distance \<and> v \<notin> set queue
             \<longrightarrow> v |\<notin>| keys f \<and> (\<forall>w. hop f v w \<longrightarrow> w \<in> dom distance)))"

lemma bfs_inv_init: "bfs_inv f s [s \<mapsto> 0] [s]"
proof -
  have "\<exists>k A B. [s] = A @ B \<and> (\<forall>v \<in> set A. [s \<mapsto> 0::int] v = Some k)
                              \<and> (\<forall>v \<in> set B. [s \<mapsto> 0::int] v = Some (k + 1))"
    by (rule exI [of _ 0], rule exI [of _ "[s]"], rule exI [of _ "[]"]) simp
  moreover have "\<forall>v d. [s \<mapsto> 0::int] v = Some d \<longrightarrow> shortest f s v d"
    by (auto simp: shortest_def split: if_splits)
  ultimately show ?thesis
    unfolding bfs_inv_def by auto
qed

text \<open>The head of the queue has the least distance in it, and no cell is more than one
  further.\<close>

lemma bfs_inv_head:
  assumes "bfs_inv f s distance (c # rest)" and "distance c = Some k"
  shows "\<forall>v \<in> set (c # rest). \<exists>d. distance v = Some d \<and> k \<le> d \<and> d \<le> k + 1"
proof -
  from assms(1) obtain k0 A B where ab: "c # rest = A @ B"
    "\<forall>v \<in> set A. distance v = Some k0" "\<forall>v \<in> set B. distance v = Some (k0 + 1)"
    unfolding bfs_inv_def by blast
  show ?thesis
  proof (cases A)
    case Nil
    with ab assms(2) have "k = k0 + 1" "\<forall>v \<in> set (c # rest). distance v = Some (k0 + 1)"
      by auto
    then show ?thesis by auto
  next
    case (Cons a A')
    with ab assms(2) have "k = k0" by auto
    moreover have "\<forall>v \<in> set (c # rest). distance v = Some k0 \<or> distance v = Some (k0 + 1)"
      using ab by (metis Un_iff set_append)
    ultimately show ?thesis by auto
  qed
qed

lemma bfs_inv_covers:
  assumes inv: "bfs_inv f s distance (c # rest)" and c: "distance c = Some k"
  shows "reach f s n v \<Longrightarrow> n \<le> nat k \<Longrightarrow> v \<in> dom distance"
proof (induction n arbitrary: v)
  case 0
  with inv show ?case by (auto simp: bfs_inv_def)
next
  case (Suc n)
  from Suc.prems(1) obtain u where u: "reach f s n u" "hop f u v" by auto
  from Suc.IH [OF u(1)] Suc.prems(2) obtain du where du: "distance u = Some du" by auto
  with inv have "shortest f s u du" by (simp add: bfs_inv_def)
  with u(1) have "nat du \<le> n" "0 \<le> du" by (auto simp: shortest_def)
  with Suc.prems(2) have "du < k" by linarith
  with bfs_inv_head [OF inv c] du have "u \<notin> set (c # rest)" by fastforce
  with inv du u(2) show ?case unfolding bfs_inv_def by blast
qed

lemma bfs_inv_closed:
  assumes inv: "bfs_inv f s distance []"
  shows "reach f s n v \<Longrightarrow> v \<in> dom distance"
proof (induction n arbitrary: v)
  case 0
  with inv show ?case by (auto simp: bfs_inv_def)
next
  case (Suc n)
  from Suc.prems obtain u where u: "reach f s n u" "hop f u v" by auto
  from Suc.IH [OF u(1)] have "u \<in> dom distance" .
  with inv u(2) show ?case unfolding bfs_inv_def by simp
qed


text \<open>One round of the loop on a cell without key keeps the invariant.\<close>

lemma bfs_inv_step:
  assumes inv: "bfs_inv f s distance (c # rest)" and nk: "c |\<notin>| keys f"
    and c: "distance c = Some k"
    and new: "distinct new" "set new = {v. hop f c v} - dom distance"
  shows "bfs_inv f s (\<lambda>v. if v \<in> set new then Some (k + 1) else distance v) (rest @ new)"
proof -
  let ?d = "\<lambda>v. if v \<in> set new then Some (k + 1) else distance v"
  from inv have s0: "distance s \<noteq> None" and dq: "distinct (c # rest)"
    and sub: "set (c # rest) \<subseteq> dom distance"
    and exact: "\<And>v d. distance v = Some d \<Longrightarrow> shortest f s v d"
    and past: "\<And>v. v \<in> dom distance \<Longrightarrow> v \<notin> set (c # rest)
        \<Longrightarrow> v |\<notin>| keys f \<and> (\<forall>w. hop f v w \<longrightarrow> w \<in> dom distance)"
    unfolding bfs_inv_def by blast+
  have dom: "dom ?d = dom distance \<union> set new"
    by (auto split: if_splits)
  have disj: "set (c # rest) \<inter> set new = {}"
    using sub new(2) by auto
  have old: "?d v = distance v" if "v \<in> set (c # rest)" for v
    using that disj by auto
  have 1: "?d s \<noteq> None" using s0 by simp
  have 2: "distinct (rest @ new)" using dq new(1) disj by auto
  have 3: "set (rest @ new) \<subseteq> dom ?d" unfolding dom using sub by auto
  have 4: "shortest f s v d" if vd: "?d v = Some d" for v d
  proof (cases "v \<in> set new")
    case False
    with vd exact show ?thesis by simp
  next
    case True
    with vd have d: "d = k + 1" by simp
    from True new(2) have hop: "hop f c v" and fresh: "v \<notin> dom distance" by auto
    from exact [OF c] have k0: "0 \<le> k" and rc: "reach f s (nat k) c"
      by (simp_all add: shortest_def)
    from k0 have suc: "nat (k + 1) = Suc (nat k)" by simp
    have "reach f s (nat (k + 1)) v" unfolding suc using rc hop by auto
    moreover have "nat (k + 1) \<le> n" if r: "reach f s n v" for n
    proof (rule ccontr)
      assume "\<not> nat (k + 1) \<le> n"
      with suc have "n \<le> nat k" by simp
      from bfs_inv_covers [OF inv c r this] fresh show False by simp
    qed
    ultimately show ?thesis using k0 d by (simp add: shortest_def)
  qed
  have 5: "\<exists>k' A B. rest @ new = A @ B \<and> (\<forall>v \<in> set A. ?d v = Some k')
                              \<and> (\<forall>v \<in> set B. ?d v = Some (k' + 1))"
  proof -
    from inv obtain k0 A B where ab: "c # rest = A @ B"
      "\<forall>v \<in> set A. distance v = Some k0" "\<forall>v \<in> set B. distance v = Some (k0 + 1)"
      unfolding bfs_inv_def by blast
    show ?thesis
    proof (cases A)
      case Nil
      with ab c have kk: "k = k0 + 1" and all: "\<forall>v \<in> set (c # rest). distance v = Some k"
        by auto
      have "rest @ new = rest @ new \<and> (\<forall>v \<in> set rest. ?d v = Some k)
          \<and> (\<forall>v \<in> set new. ?d v = Some (k + 1))"
        using all old by auto
      then show ?thesis by blast
    next
      case (Cons a A1)
      with ab c have kk: "k = k0" and r: "rest = A1 @ B" by auto
      have a1: "\<forall>v \<in> set A1. ?d v = Some k"
        using ab(2) Cons old r kk by auto
      have b1: "\<forall>v \<in> set (B @ new). ?d v = Some (k + 1)"
        using ab(3) old r kk by auto
      have "rest @ new = A1 @ (B @ new)" using r by simp
      with a1 b1 show ?thesis by blast
    qed
  qed
  have 6: "v |\<notin>| keys f \<and> (\<forall>w. hop f v w \<longrightarrow> w \<in> dom ?d)"
    if v: "v \<in> dom ?d" "v \<notin> set (rest @ new)" for v
  proof (cases "v = c")
    case True
    have "w \<in> dom ?d" if "hop f c w" for w
      unfolding dom using that new(2) by auto
    with nk True show ?thesis by simp
  next
    case False
    with v dom have "v \<in> dom distance" "v \<notin> set (c # rest)" by auto
    from past [OF this] show ?thesis unfolding dom by auto
  qed
  from 1 2 3 4 5 6 show ?thesis
    unfolding bfs_inv_def by blast
qed

text \<open>What the loop returns from a state that satisfies the invariant.\<close>

definition nearest_found :: "Field \<Rightarrow> Point \<Rightarrow> error + Path option \<Rightarrow> bool" where
  "nearest_found f s r =
     (case r of
        Inl e \<Rightarrow> False
      | Inr None \<Rightarrow> (\<forall>k n. k |\<in>| keys f \<longrightarrow> \<not> reach f s n k)
      | Inr (Some p) \<Rightarrow>
          start_p p = s \<and> end_p p |\<in>| keys f \<and> shortest f s (end_p p) (length_p p)
          \<and> (\<forall>k n. k |\<in>| keys f \<and> reach f s n k \<longrightarrow> nat (length_p p) \<le> n))"

lemma nearest_loop_found:
  "doors_linked f \<Longrightarrow> bfs_inv f s distance queue \<Longrightarrow>
   nearest_found f s (nearest_loop f s distance queue)"
proof (induction f s distance queue rule: nearest_loop.induct)
  case (1 f s distance)
  have "\<not> reach f s n k" if "k |\<in>| keys f" for k n
  proof
    assume "reach f s n k"
    from bfs_inv_closed [OF "1.prems"(2) this] have "k \<in> dom distance" .
    with "1.prems"(2) that show False unfolding bfs_inv_def by simp
  qed
  then show ?case by (simp add: nearest_found_def)
next
  case (2 f s distance c queue)
  note inv = "2.prems"(2)
  from inv obtain k where c: "distance c = Some k"
    unfolding bfs_inv_def by auto
  from inv c have sh: "shortest f s c k" unfolding bfs_inv_def by blast
  show ?case
  proof (cases "c |\<in>| keys f")
    case True
    have "nat k \<le> n" if k': "k' |\<in>| keys f" and r: "reach f s n k'" for k' n
    proof (rule ccontr)
      assume "\<not> nat k \<le> n"
      then have lt: "n < nat k" by simp
      from bfs_inv_covers [OF inv c r] lt obtain d' where d': "distance k' = Some d'" by auto
      with inv have "shortest f s k' d'" unfolding bfs_inv_def by blast
      with r have "nat d' \<le> n" "0 \<le> d'" by (auto simp: shortest_def)
      with lt have "d' < k" by linarith
      with bfs_inv_head [OF inv c] d' have "k' \<notin> set (c # queue)" by fastforce
      with inv d' k' show False unfolding bfs_inv_def by blast
    qed
    then have "\<forall>k' n. k' |\<in>| keys f \<and> reach f s n k' \<longrightarrow> nat k \<le> n" by blast
    with True c sh show ?thesis by (simp add: nearest_found_def)
  next
    case False
    from get_neighbors_hops [OF "2.prems"(1), of c] obtain ns where
      ns: "get_neighbors f c = Inr ns" "set ns = {v. hop f c v}" by blast
    from visit_neighbors_spec [of distance c k ns queue, OF c] obtain new where new:
      "visit_neighbors c ns distance queue
         = Inr (\<lambda>v. if v \<in> set new then Some (k + 1) else distance v, queue @ new)"
      "distinct new" "set new = set ns - dom distance"
      by blast
    let ?d = "\<lambda>v. if v \<in> set new then Some (k + 1) else distance v"
    have step: "bfs_inv f s ?d (queue @ new)"
      using bfs_inv_step [OF inv False c new(2)] new(3) ns(2) by simp
    have run: "nearest_loop f s distance (c # queue) = nearest_loop f s ?d (queue @ new)"
      using False ns(1) new(1) by simp
    from "2.IH" [OF False ns(1) new(1) refl "2.prems"(1) step] show ?thesis
      unfolding run .
  qed
qed


lemma get_nearest_key_found:
  "doors_linked f \<Longrightarrow> nearest_found f s (get_nearest_key f s)"
  unfolding get_nearest_key_def
  by (rule nearest_loop_found [OF _ bfs_inv_init])

text \<open>
  Claim C2. On a field where every door has its entry, and from any start cell (a robot's
  cell in particular), \<^verbatim>\<open>get_nearest_key\<close> raises nothing; it returns \<^verbatim>\<open>None\<close> exactly when
  no route leads from the start to a remaining key; and a path it returns starts at the
  start, ends on a remaining key, and its length is the number of moves of a shortest
  route to that key, which no route to any remaining key undercuts.
\<close>

theorem get_nearest_key_nearest:
  "doors_linked f \<Longrightarrow>
     (\<exists>r. get_nearest_key f s = Inr r)
   \<and> ((get_nearest_key f s = Inr None) = (\<not> (\<exists>k n. k |\<in>| keys f \<and> reach f s n k)))
   \<and> (\<forall>p. get_nearest_key f s = Inr (Some p) \<longrightarrow>
          start_p p = s \<and> end_p p |\<in>| keys f \<and> 0 \<le> length_p p
          \<and> reach f s (nat (length_p p)) (end_p p)
          \<and> (\<forall>k n. k |\<in>| keys f \<and> reach f s n k \<longrightarrow> nat (length_p p) \<le> n))"
proof -
  assume "doors_linked f"
  then have found: "nearest_found f s (get_nearest_key f s)"
    by (rule get_nearest_key_found)
  show ?thesis
  proof (cases "get_nearest_key f s")
    case (Inl e)
    with found show ?thesis by (simp add: nearest_found_def)
  next
    case (Inr r)
    show ?thesis
    proof (cases r)
      case None
      with Inr found show ?thesis by (simp add: nearest_found_def)
    next
      case (Some p)
      with Inr found have p: "start_p p = s" "end_p p |\<in>| keys f"
        "shortest f s (end_p p) (length_p p)"
        "\<forall>k n. k |\<in>| keys f \<and> reach f s n k \<longrightarrow> nat (length_p p) \<le> n"
        by (simp_all add: nearest_found_def)
      from p(3) have "0 \<le> length_p p" "reach f s (nat (length_p p)) (end_p p)"
        by (simp_all add: shortest_def)
      with p(1,2,4) Inr Some show ?thesis by auto
    qed
  qed
qed

lemma walled_key_linked: "doors_linked walled_key_field"
  by (simp add: doors_linked_def walled_key_field_def)

theorem get_nearest_key_nearest_witness:
  "doors_linked fixture_field
   \<and> get_nearest_key fixture_field (Point 5 1)
       = Inr (Some \<lparr>length_p = 2, start_p = Point 5 1, end_p = Point 7 1\<rparr>)
   \<and> reach fixture_field (Point 5 1) 2 (Point 7 1)
   \<and> \<not> reach fixture_field (Point 5 1) 1 (Point 7 1)
   \<and> \<not> reach fixture_field (Point 5 1) 1 (Point 1 1)
   \<and> doors_linked walled_key_field
   \<and> get_nearest_key walled_key_field (Point 1 1) = Inr None
   \<and> \<not> reach walled_key_field (Point 1 1) 2 (Point 3 1)"
proof -
  have l: "doors_linked fixture_field"
    using fixture_init by (rule Field_init_linked)
  note a = get_nearest_key_nearest [OF l, of "Point 5 1"]
  note b = get_nearest_key_nearest [OF walled_key_linked, of "Point 1 1"]
  let ?p = "\<lparr>length_p = 2, start_p = Point 5 1, end_p = Point 7 1\<rparr>"
  from a fixture_nearest_a have r: "reach fixture_field (Point 5 1) (nat (length_p ?p)) (end_p ?p)"
    and m: "\<forall>k n. k |\<in>| keys fixture_field \<and> reach fixture_field (Point 5 1) n k
              \<longrightarrow> nat (length_p ?p) \<le> n"
    by blast+
  have k7: "Point 7 1 |\<in>| keys fixture_field" and k1: "Point 1 1 |\<in>| keys fixture_field"
    by (simp_all add: fixture_field_def)
  from r have r2: "reach fixture_field (Point 5 1) 2 (Point 7 1)"
    by (simp add: numeral_2_eq_2)
  from m k7 have n7: "\<not> reach fixture_field (Point 5 1) 1 (Point 7 1)"
    by fastforce
  from m k1 have n1: "\<not> reach fixture_field (Point 5 1) 1 (Point 1 1)"
    by fastforce
  have k3: "Point 3 1 |\<in>| keys walled_key_field"
    by (simp add: walled_key_field_def)
  from b walled_key_nearest k3 have n3: "\<not> reach walled_key_field (Point 1 1) 2 (Point 3 1)"
    by blast
  from l fixture_nearest_a r2 n7 n1 walled_key_linked walled_key_nearest n3
  show ?thesis by (simp only: simp_thms)
qed

section \<open>The search returns\<close>

text \<open>
  On nodes whose doors all have their entry, and with a set iterator that yields the
  elements of the set, neither the robot loop nor the search loop raises: the router
  returns a robot's own cell as start and a remaining key as end, which is what
  \<^verbatim>\<open>collect_key\<close> needs.
\<close>

lemma collect_key_linked:
  "collect_key f r k = Inr f' \<Longrightarrow> doors_linked f' = doors_linked f"
  by (auto simp: collect_key_def Let_def doors_linked_def split: if_splits)

lemma expand_total:
  "doors_linked (field state) \<Longrightarrow> set rs \<subseteq> fset (robots (field state)) \<Longrightarrow>
   \<exists>s'. expand state rs s = Inr s'"
proof (induction rs arbitrary: s)
  case Nil
  show ?case by simp
next
  case (Cons robot rs)
  from Cons.prems(2) have rob: "robot |\<in>| robots (field state)"
    and rest: "set rs \<subseteq> fset (robots (field state))" by simp_all
  note IH = Cons.IH [OF Cons.prems(1) rest]
  show ?case
  proof (cases "get_nearest_key (field state) robot")
    case (Inl e)
    with get_nearest_key_found [OF Cons.prems(1), of robot] show ?thesis
      by (simp add: nearest_found_def)
  next
    case (Inr r)
    show ?thesis
    proof (cases r)
      case None
      with Inr IH [of s] show ?thesis by simp
    next
      case (Some p)
      with Inr get_nearest_key_found [OF Cons.prems(1), of robot]
      have p: "start_p p = robot" "end_p p |\<in>| keys (field state)"
        by (simp_all add: nearest_found_def)
      with rob obtain nf where
        nf: "collect_key (copy (field state)) (start_p p) (end_p p) = Inr nf"
        by (simp add: collect_key_def copy_eq Let_def)
      show ?thesis
      proof (cases "dump nf \<in> visited s")
        case True
        with Inr Some nf IH [of s] show ?thesis by simp
      next
        case False
        let ?n = "\<lparr>field = nf, steps = steps state + length_p p\<rparr>"
        from IH [of "s\<lparr>visited := insert (dump nf) (visited s),
                      states := states s @ [?n], enqueued := enqueued s @ [?n]\<rparr>"]
          Inr Some nf False show ?thesis by simp
      qed
    qed
  qed
qed

lemma expand_linked:
  "expand state rs s = Inr s' \<Longrightarrow> doors_linked (field state) \<Longrightarrow>
   list_all (\<lambda>n. doors_linked (field n)) (states s) \<Longrightarrow>
   list_all (\<lambda>n. doors_linked (field n)) (states s')"
proof (induction rs arbitrary: s)
  case Nil
  then show ?case by simp
next
  case (Cons robot rs)
  show ?case
  proof (cases "get_nearest_key (field state) robot")
    case (Inl e)
    with Cons.prems show ?thesis by simp
  next
    case (Inr r)
    show ?thesis
    proof (cases r)
      case None
      with Inr Cons show ?thesis by simp
    next
      case (Some p)
      show ?thesis
      proof (cases "collect_key (copy (field state)) (start_p p) (end_p p)")
        case (Inl e)
        with Inr Some Cons.prems show ?thesis by simp
      next
        case nf: (Inr nf)
        from collect_key_linked [OF nf] Cons.prems(2) have l: "doors_linked nf"
          by (simp add: copy_eq)
        show ?thesis
        proof (cases "dump nf \<in> visited s")
          case True
          with Inr Some nf Cons show ?thesis by simp
        next
          case False
          let ?n = "\<lparr>field = nf, steps = steps state + length_p p\<rparr>"
          let ?s1 = "s\<lparr>visited := insert (dump nf) (visited s),
                       states := states s @ [?n], enqueued := enqueued s @ [?n]\<rparr>"
          from Inr Some nf False Cons.prems(1) have run: "expand state rs ?s1 = Inr s'" by simp
          have "list_all (\<lambda>n. doors_linked (field n)) (states ?s1)"
            using Cons.prems(3) l by simp
          from Cons.IH [OF run Cons.prems(2) this] show ?thesis .
        qed
      qed
    qed
  qed
qed

lemma solve_loop_total:
  "iterates iter \<Longrightarrow> list_all (\<lambda>n. doors_linked (field n)) (states s) \<Longrightarrow>
   \<exists>s'. solve_loop iter s = Inr s'"
proof (induction iter s rule: solve_loop.induct)
  case (1 iter s)
  show ?case
  proof (cases "states s")
    case Nil
    then show ?thesis by (simp add: solve_loop_Nil)
  next
    case (Cons state rest)
    with "1.prems"(2) have l: "doors_linked (field state)"
      and lr: "list_all (\<lambda>n. doors_linked (field n)) rest" by simp_all
    show ?thesis
    proof (cases "keys_count (field state) = 0")
      case True
      from "1.IH"(1) [OF Cons True "1.prems"(1)] lr Cons True show ?thesis
        by (simp add: solve_loop_terminal)
    next
      case False
      from "1.prems"(1)
      have "set (iter (s\<lparr>states := rest\<rparr>) state) \<subseteq> fset (robots (field state))"
        by (simp add: iterates_def)
      from expand_total [OF l this, of "s\<lparr>states := rest\<rparr>"] obtain s1 where
        ex: "expand state (iter (s\<lparr>states := rest\<rparr>) state) (s\<lparr>states := rest\<rparr>) = Inr s1"
        by blast
      from expand_linked [OF ex l] lr
      have "list_all (\<lambda>n. doors_linked (field n)) (states s1)" by simp
      from "1.IH"(2) [OF Cons False ex "1.prems"(1) this] ex Cons False show ?thesis
        by (simp add: solve_loop_expand)
    qed
  qed
qed

text \<open>
  \<^verbatim>\<open>solve\<close> on every grid that the constructor accepts: it returns, with the least recorded
  distance if a node without keys was dequeued, and with the float infinity if none was.
\<close>

lemma solve_total:
  assumes "iterates iter" and "Field_init data = Inr f"
  shows "\<exists>s. search iter (PyInf 0) data = Inr s
      \<and> solve iter data =
          Inr (if recorded s = [] then PyInf 0 else PyInt (Min (set (map steps (recorded s)))))"
proof -
  let ?n = "\<lparr>field = f, steps = 0\<rparr>"
  let ?s0 = "\<lparr>result = PyInf 0, visited = {}, states = [?n], enqueued = [?n], recorded = []\<rparr>"
  have "list_all (\<lambda>n. doors_linked (field n)) (states ?s0)"
    using Field_init_linked [OF assms(2)] by simp
  from solve_loop_total [OF assms(1) this] obtain s where "solve_loop iter ?s0 = Inr s"
    by blast
  with assms(2) have s: "search iter (PyInf 0) data = Inr s"
    by (simp add: search_def)
  from s solve_returns [OF s] show ?thesis by blast
qed

end
